theory Spec2Isabelle
  imports Complex_Main "HOL-Library.Word"
begin

section \<open>Julia-set polygons: a shallow embedding of \<^verbatim>\<open>main.cpp\<close>\<close>

text \<open>
  The C++ types \<^verbatim>\<open>int\<close> and \<^verbatim>\<open>VLONG\<close> are modelled as \<^typ>\<open>int\<close>: signed overflow is
  undefined in C++, so every statement below speaks about the runs in which the
  program's arithmetic stays in range. \<^verbatim>\<open>BYTE\<close> is an 8-bit word. Heap buffers are
  lists; a read or write outside a buffer is the outcome \<open>OutOfBounds\<close>, a call of
  \<^verbatim>\<open>exit(99)\<close> is the outcome \<open>Exit99\<close>, a failing \<^verbatim>\<open>new[]\<close> is \<open>BadAlloc\<close>.
\<close>

datatype error = Exit99 | OutOfBounds | BadAlloc

type_synonym BYTE = "8 word"

definition COLORGRAY :: BYTE where "COLORGRAY = 0"
definition COLORWHITE :: BYTE where "COLORWHITE = 1"
definition COLORBLACK :: BYTE where "COLORBLACK = 2"
definition COLORRED :: BYTE where "COLORRED = 4"
definition COLORBLUE :: BYTE where "COLORBLUE = 5"
definition COLORYELLOW :: BYTE where "COLORYELLOW = 6"
definition AKTIVCOL :: BYTE where "AKTIVCOL = 16"

datatype pip = PIP_ERROR | PIP_UNKNOWN | PIP_INTERIOR | PIP_BOUNDARY | PIP_EXTERIOR

definition minimumI :: "int \<Rightarrow> int \<Rightarrow> int" where
  "minimumI a b = (if a < b then a else b)"

definition maximumI :: "int \<Rightarrow> int \<Rightarrow> int" where
  "maximumI a b = (if a > b then a else b)"


section \<open>The C library's text conversions\<close>

text \<open>
  \<^verbatim>\<open>fprintf\<close>, \<^verbatim>\<open>fgets\<close> and \<^verbatim>\<open>sscanf\<close> belong to the C library, not to the
  repository. They are modelled as far as \<^verbatim>\<open>Polygon::save\<close> and \<^verbatim>\<open>Polygon::load\<close> use
  them: \<^verbatim>\<open>%i\<close> and \<^verbatim>\<open>%I64d\<close> print a decimal numeral with a minus sign for negative
  values; on input \<^verbatim>\<open>%i\<close> skips white space, takes an optional sign and reads a
  hexadecimal (\<^verbatim>\<open>0x\<close>), octal (leading \<^verbatim>\<open>0\<close>) or decimal numeral, \<^verbatim>\<open>%I64d\<close> reads a
  decimal numeral only. A text file is the list of its lines, each one terminated by a
  newline in the file.
\<close>

definition digit_char :: "nat \<Rightarrow> char" where
  "digit_char d = char_of (48 + d)"

fun print_nat :: "nat \<Rightarrow> string" where
  "print_nat n = (if n < 10 then [digit_char n] else print_nat (n div 10) @ [digit_char (n mod 10)])"

declare print_nat.simps [simp del]

definition print_int :: "int \<Rightarrow> string" where
  "print_int i = (if i < 0 then CHR ''-'' # print_nat (nat (- i)) else print_nat (nat i))"

definition isspace :: "char \<Rightarrow> bool" where
  "isspace c = (c = CHR '' '' \<or> (9 \<le> (of_char c :: nat) \<and> (of_char c :: nat) \<le> 13))"

definition digit_of :: "nat \<Rightarrow> char \<Rightarrow> nat option" where
  "digit_of b c =
     (let k = (of_char c :: nat);
          v = (if 48 \<le> k \<and> k \<le> 57 then Some (k - 48)
               else if 97 \<le> k \<and> k \<le> 102 then Some (k - 87)
               else if 65 \<le> k \<and> k \<le> 70 then Some (k - 55)
               else None)
      in case v of None \<Rightarrow> None | Some d \<Rightarrow> if d < b then Some d else None)"

fun scan_digits :: "nat \<Rightarrow> nat \<Rightarrow> string \<Rightarrow> nat \<times> string" where
  "scan_digits b acc [] = (acc, [])"
| "scan_digits b acc (c # cs) =
     (case digit_of b c of
        Some d \<Rightarrow> scan_digits b (acc * b + d) cs
      | None \<Rightarrow> (acc, c # cs))"

definition scan_sign :: "string \<Rightarrow> bool \<times> string" where
  "scan_sign s =
     (case s of
        [] \<Rightarrow> (False, [])
      | c # cs \<Rightarrow> if c = CHR ''-'' then (True, cs)
                 else if c = CHR ''+'' then (False, cs)
                 else (False, s))"

definition signed_val :: "bool \<Rightarrow> nat \<Rightarrow> int" where
  "signed_val neg v = (if neg then - int v else int v)"

definition scan_base :: "nat \<Rightarrow> bool \<Rightarrow> string \<Rightarrow> (int \<times> string) option" where
  "scan_base b neg s =
     (case s of
        [] \<Rightarrow> None
      | c # cs \<Rightarrow>
          (case digit_of b c of
             None \<Rightarrow> None
           | Some d \<Rightarrow> (case scan_digits b 0 s of (v, rest) \<Rightarrow> Some (signed_val neg v, rest))))"

text \<open>The conversion \<^verbatim>\<open>%I64d\<close> (and \<^verbatim>\<open>%d\<close>): the value read and the rest of the input.\<close>

definition scan_d :: "string \<Rightarrow> (int \<times> string) option" where
  "scan_d s = (case scan_sign (dropWhile isspace s) of (neg, s2) \<Rightarrow> scan_base 10 neg s2)"

text \<open>The conversion \<^verbatim>\<open>%i\<close>, which finds the base from the prefix.\<close>

definition hex_prefix :: "string \<Rightarrow> bool" where
  "hex_prefix s =
     (case s of
        c0 # c1 # c2 # cs \<Rightarrow> c0 = CHR ''0'' \<and> (c1 = CHR ''x'' \<or> c1 = CHR ''X'') \<and> digit_of 16 c2 \<noteq> None
      | _ \<Rightarrow> False)"

definition scan_i :: "string \<Rightarrow> (int \<times> string) option" where
  "scan_i s =
     (case scan_sign (dropWhile isspace s) of
        (neg, s2) \<Rightarrow>
          if hex_prefix s2 then scan_base 16 neg (drop 2 s2)
          else if s2 \<noteq> [] \<and> hd s2 = CHR ''0'' then scan_base 8 neg s2
          else scan_base 10 neg s2)"

text \<open>
  The conversion \<^verbatim>\<open>%lf\<close>, as far as a decimal numeral with an optional fraction
  goes; the value is kept exactly, the rounding to a \<^verbatim>\<open>double\<close> is not modelled.
\<close>

definition scan_lf :: "string \<Rightarrow> (rat \<times> string) option" where
  "scan_lf s =
     (case scan_sign (dropWhile isspace s) of
        (neg, s2) \<Rightarrow>
          (case scan_digits 10 0 s2 of
             (v, r1) \<Rightarrow>
               (case r1 of
                  c # r2 \<Rightarrow>
                    if c = CHR ''.''
                    then (case scan_digits 10 0 r2 of
                            (f, r3) \<Rightarrow>
                              if length r1 = length s2 \<and> length r3 = length r2 then None
                              else Some ((if neg then -1 else 1) *
                                         (of_nat v + of_nat f / of_nat (10 ^ (length r2 - length r3))), r3))
                    else if length r1 = length s2 then None
                    else Some ((if neg then -1 else 1) * of_nat v, r1)
                | [] \<Rightarrow> if length r1 = length s2 then None
                        else Some ((if neg then -1 else 1) * of_nat v, r1))))"

text \<open>\<^verbatim>\<open>sscanf(tmp,"%i,%i",&ax,&ay) == 2\<close>\<close>

definition sscanf_i_i :: "string \<Rightarrow> (int \<times> int) option" where
  "sscanf_i_i s =
     (case scan_i s of
        None \<Rightarrow> None
      | Some (a, r) \<Rightarrow>
          (case r of
             [] \<Rightarrow> None
           | c # r2 \<Rightarrow> if c = CHR '','' then (case scan_i r2 of None \<Rightarrow> None | Some (b, _) \<Rightarrow> Some (a, b))
                      else None))"

text \<open>\<^verbatim>\<open>sscanf(tmp,"%i",&a) == 1\<close> and \<^verbatim>\<open>sscanf(tmp,"%I64d",&nenner) == 1\<close>\<close>

definition sscanf_i :: "string \<Rightarrow> int option" where
  "sscanf_i s = map_option fst (scan_i s)"

definition sscanf_I64d :: "string \<Rightarrow> int option" where
  "sscanf_I64d s = map_option fst (scan_d s)"

text \<open>\<^verbatim>\<open>sscanf(tmp,"%lf,%lf,%lf,%lf",...) == 4\<close>\<close>

definition comma_lf :: "string \<Rightarrow> (rat \<times> string) option" where
  "comma_lf r = (case r of [] \<Rightarrow> None | c # r2 \<Rightarrow> if c = CHR '','' then scan_lf r2 else None)"

definition sscanf_lf4 :: "string \<Rightarrow> (rat \<times> rat \<times> rat \<times> rat) option" where
  "sscanf_lf4 s =
     (case scan_lf s of
        None \<Rightarrow> None
      | Some (a, r1) \<Rightarrow>
          (case comma_lf r1 of
             None \<Rightarrow> None
           | Some (b, r2) \<Rightarrow>
               (case comma_lf r2 of
                  None \<Rightarrow> None
                | Some (c, r3) \<Rightarrow>
                    (case comma_lf r3 of
                       None \<Rightarrow> None
                     | Some (d, _) \<Rightarrow> Some (a, b, c, d)))))"

text \<open>
  \<^verbatim>\<open>fgets(tmp,1000,f)\<close> on the lines still unread: at most 999 characters of the next
  line, with its newline when that fits; at the end of the file the buffer keeps what
  it held. The result is the unread rest and the buffer as a C string.
\<close>

definition newline :: char where
  "newline = CHR 0x0A"

definition fgets :: "string list \<Rightarrow> string \<Rightarrow> string list \<times> string" where
  "fgets ls tmp =
     (case ls of
        [] \<Rightarrow> ([], tmp)
      | l # rest \<Rightarrow>
          if length l < 999 then (rest, takeWhile (\<lambda>c. c \<noteq> CHR 0x00) (l @ [newline]))
          else (drop 999 l # rest, takeWhile (\<lambda>c. c \<noteq> CHR 0x00) (take 999 l)))"

text \<open>
  \<^verbatim>\<open>chomp\<close> cuts the string after its last character that is not below 32;
  \<^verbatim>\<open>char\<close> is signed, so the codes from 128 on count as negative.
\<close>

definition below32 :: "char \<Rightarrow> bool" where
  "below32 c = ((of_char c :: nat) < 32 \<or> 128 \<le> (of_char c :: nat))"

definition chomp :: "string \<Rightarrow> string" where
  "chomp s = rev (dropWhile below32 (rev s))"

text \<open>What \<^verbatim>\<open>sscanf\<close> is given after \<^verbatim>\<open>fgets\<close> and \<^verbatim>\<open>chomp\<close> took a line shorter than 999 characters.\<close>

definition line_text :: "string \<Rightarrow> string" where
  "line_text l = chomp (takeWhile (\<lambda>c. c \<noteq> CHR 0x00) (l @ [newline]))"


section \<open>struct Polygon\<close>

text \<open>
  The members \<^verbatim>\<open>x\<close>, \<^verbatim>\<open>y\<close> of \<^verbatim>\<open>PolygonPoint\<close> are the fields \<open>X\<close>, \<open>Y\<close>. The buffer
  \<^verbatim>\<open>points\<close> is a list (\<^verbatim>\<open>NULL\<close> is the empty list), \<^verbatim>\<open>yprepare\<close> likewise. Memory that
  \<^verbatim>\<open>new[]\<close> returns is not initialised in C++; here it holds zeros, and no statement
  below depends on that content.
\<close>

record PolygonPoint =
  X :: int
  Y :: int

record Polygon =
  pointcount :: int
  memused :: int
  useprepare :: int
  points :: "PolygonPoint list"
  nenner :: int
  cx0 :: rat
  cx1 :: rat
  cy0 :: rat
  cy1 :: rat
  xmin :: int
  xmax :: int
  ymin :: int
  ymax :: int
  yprepare :: "int list"

text \<open>\<^verbatim>\<open>Polygon::Polygon()\<close>; the members it leaves untouched are parameters.\<close>

definition Polygon_new :: "Polygon \<Rightarrow> Polygon" where
  "Polygon_new raw = raw\<lparr>pointcount := 0, points := [], memused := 0, useprepare := 0, yprepare := []\<rparr>"

definition setlen :: "Polygon \<Rightarrow> int \<Rightarrow> error + Polygon" where
  "setlen p a =
     (if a < 0 then Inl BadAlloc
      else Inr (p\<lparr>memused := a,
                  points := replicate (nat a) \<lparr>X = 0, Y = 0\<rparr>,
                  pointcount := 0,
                  useprepare := 0,
                  yprepare := replicate (nat a) 0\<rparr>))"

text \<open>The bounding box update shared by \<^verbatim>\<open>Polygon::load\<close> and \<^verbatim>\<open>Polygon::add\<close>.\<close>

definition grow_box :: "bool \<Rightarrow> int \<Rightarrow> int \<Rightarrow> Polygon \<Rightarrow> Polygon" where
  "grow_box first ax ay p =
     (if first then p\<lparr>xmin := ax, xmax := ax, ymin := ay, ymax := ay\<rparr>
      else p\<lparr>xmin := (if ax - 8 < xmin p then ax - 8 else xmin p),
             xmax := (if ax + 8 > xmax p then ax + 8 else xmax p),
             ymin := (if ay - 8 < ymin p then ay - 8 else ymin p),
             ymax := (if ay + 8 > ymax p then ay + 8 else ymax p)\<rparr>)"

subsection \<open>\<^verbatim>\<open>Polygon::load\<close>\<close>

text \<open>
  The loop over the point lines. The state is the polygon, the unread lines and the
  line buffer \<^verbatim>\<open>tmp\<close>.
\<close>

function load_points :: "int \<Rightarrow> Polygon \<Rightarrow> string list \<Rightarrow> string \<Rightarrow> error + Polygon" where
  "load_points i p ls tmp =
     (if i < pointcount p
      then (case fgets ls tmp of
              (ls', tmp') \<Rightarrow>
                (case sscanf_i_i (chomp tmp') of
                   None \<Rightarrow> Inl Exit99
                 | Some (ax, ay) \<Rightarrow>
                     if 0 \<le> i \<and> i < int (length (points p))
                     then load_points (i + 1)
                            (grow_box (i = 0) ax ay (p\<lparr>points := (points p)[nat i := \<lparr>X = ax, Y = ay\<rparr>]\<rparr>))
                            ls' (chomp tmp')
                     else Inl OutOfBounds))
      else Inr p)"
  by pat_completeness auto
termination
  by (relation "measure (\<lambda>(i, p, ls, tmp). nat (pointcount p - i))")
     (auto simp: grow_box_def)

declare load_points.simps [simp del]

text \<open>
  \<^verbatim>\<open>Polygon::load\<close>. The file is \<open>None\<close> when \<^verbatim>\<open>fopen\<close> fails; \<open>tmp0\<close> is what the
  line buffer holds before the first \<^verbatim>\<open>fgets\<close>; \<open>R0\<close>, \<open>R1\<close> are the globals
  \<^verbatim>\<open>RANGE0\<close>, \<^verbatim>\<open>RANGE1\<close>. The result is the return value and the polygon.
\<close>

definition load :: "int \<Rightarrow> int \<Rightarrow> Polygon \<Rightarrow> string \<Rightarrow> string list option \<Rightarrow> error + (int \<times> Polygon)" where
  "load R0 R1 this tmp0 file =
     (case file of
        None \<Rightarrow> Inr (-1, this)
      | Some ls0 \<Rightarrow>
          (let p0 = this\<lparr>points := [], pointcount := 0, nenner := 0\<rparr>;
               (ls1, t1) = fgets ls0 tmp0;
               p1 = (case sscanf_I64d (chomp t1) of
                       None \<Rightarrow> p0\<lparr>nenner := 2 ^ 25\<rparr>
                     | Some n \<Rightarrow> p0\<lparr>nenner := n\<rparr>);
               (ls2, t2) = fgets ls1 (chomp t1);
               p2 = (case sscanf_lf4 (chomp t2) of
                       None \<Rightarrow> p1\<lparr>cx0 := of_int R0, cy0 := of_int R0, cx1 := of_int R1, cy1 := of_int R1\<rparr>
                     | Some (a, b, c, d) \<Rightarrow> p1\<lparr>cx0 := a, cx1 := b, cy0 := c, cy1 := d\<rparr>);
               (ls3, t3) = fgets ls2 (chomp t2)
           in case sscanf_i (chomp t3) of
                None \<Rightarrow> Inl Exit99
              | Some a \<Rightarrow>
                  (case setlen p2 a of
                     Inl e \<Rightarrow> Inl e
                   | Inr p3 \<Rightarrow>
                       (case load_points 0 (p3\<lparr>pointcount := a\<rparr>) ls3 (chomp t3) of
                          Inl e \<Rightarrow> Inl e
                        | Inr p4 \<Rightarrow> Inr (1, p4)))))"

subsection \<open>\<^verbatim>\<open>Polygon::save\<close>\<close>

definition point_line :: "PolygonPoint \<Rightarrow> string" where
  "point_line q = print_int (X q) @ '','' @ print_int (Y q)"

function save_points :: "int \<Rightarrow> Polygon \<Rightarrow> string list \<Rightarrow> error + string list" where
  "save_points i p out =
     (if i < pointcount p
      then (if 0 \<le> i \<and> i < int (length (points p))
            then save_points (i + 1) p (out @ [point_line (points p ! nat i)])
            else Inl OutOfBounds)
      else Inr out)"
  by pat_completeness auto
termination
  by (relation "measure (\<lambda>(i, p, out). nat (pointcount p - i))") auto

declare save_points.simps [simp del]

text \<open>The lines \<^verbatim>\<open>Polygon::save\<close> writes when \<^verbatim>\<open>fopen\<close> succeeds.\<close>

definition save :: "int \<Rightarrow> int \<Rightarrow> Polygon \<Rightarrow> error + string list" where
  "save R0 R1 p =
     (case save_points 0 p
             [print_int (nenner p),
              print_int R0 @ '','' @ print_int R1 @ '','' @ print_int R0 @ '','' @ print_int R1,
              print_int (pointcount p)] of
        Inl e \<Rightarrow> Inl e
      | Inr out \<Rightarrow> Inr (out @ [''.'']))"

text \<open>The values of a 64-bit signed integer; every \<^verbatim>\<open>int\<close> and \<^verbatim>\<open>VLONG\<close> of the program is one.\<close>

definition in_int64 :: "int \<Rightarrow> bool" where
  "in_int64 v = (- (2 ^ 63) \<le> v \<and> v < 2 ^ 63)"

text \<open>
  The polygon \<^verbatim>\<open>Polygon::load\<close> holds after the denominator line \<open>l1\<close> and the range
  line \<open>l2\<close>, for lines shorter than 999 characters (a name for a part of \<open>load\<close>,
  used to state lemmas).
\<close>

definition load_header :: "int \<Rightarrow> int \<Rightarrow> Polygon \<Rightarrow> string \<Rightarrow> string \<Rightarrow> Polygon" where
  "load_header R0 R1 this l1 l2 =
     (let p0 = this\<lparr>points := [], pointcount := 0, nenner := 0\<rparr>;
          p1 = (case sscanf_I64d (line_text l1) of
                  None \<Rightarrow> p0\<lparr>nenner := 2 ^ 25\<rparr>
                | Some n \<Rightarrow> p0\<lparr>nenner := n\<rparr>)
      in (case sscanf_lf4 (line_text l2) of
            None \<Rightarrow> p1\<lparr>cx0 := of_int R0, cy0 := of_int R0, cx1 := of_int R1, cy1 := of_int R1\<rparr>
          | Some (a, b, c, d) \<Rightarrow> p1\<lparr>cx0 := a, cx1 := b, cy0 := c, cy1 := d\<rparr>))"

text \<open>The storage of a polygon object with every member zero, for the examples.\<close>

definition raw_polygon :: Polygon where
  "raw_polygon = \<lparr>pointcount = 0, memused = 0, useprepare = 0, points = [], nenner = 0,
     cx0 = 0, cx1 = 0, cy0 = 0, cy1 = 0, xmin = 0, xmax = 0, ymin = 0, ymax = 0, yprepare = []\<rparr>"

section \<open>Buffers\<close>

text \<open>Reading and writing an element of a heap buffer; outside it the run is lost.\<close>

definition rd :: "'a list \<Rightarrow> int \<Rightarrow> error + 'a" where
  "rd xs i = (if 0 \<le> i \<and> i < int (length xs) then Inr (xs ! nat i) else Inl OutOfBounds)"

definition wr :: "'a list \<Rightarrow> int \<Rightarrow> 'a \<Rightarrow> error + 'a list" where
  "wr xs i v = (if 0 \<le> i \<and> i < int (length xs) then Inr (xs[nat i := v]) else Inl OutOfBounds)"

definition bindE :: "error + 'a \<Rightarrow> ('a \<Rightarrow> error + 'b) \<Rightarrow> error + 'b" where
  "bindE m f = (case m of Inl e \<Rightarrow> Inl e | Inr v \<Rightarrow> f v)"


section \<open>The other members of Polygon\<close>

function isDiagonalFree_from :: "int \<Rightarrow> Polygon \<Rightarrow> error + int" where
  "isDiagonalFree_from i p =
     (if i < pointcount p
      then bindE (rd (points p) (i - 1)) (\<lambda>a.
           bindE (rd (points p) i) (\<lambda>b.
             if X a \<noteq> X b \<and> Y a \<noteq> Y b then Inr 0
             else isDiagonalFree_from (i + 1) p))
      else Inr 1)"
  by pat_completeness auto
termination
  by (relation "measure (\<lambda>(i, p). nat (pointcount p - i))") auto

declare isDiagonalFree_from.simps [simp del]

definition isDiagonalFree :: "Polygon \<Rightarrow> error + int" where
  "isDiagonalFree p = isDiagonalFree_from 1 p"





subsection \<open>\<^verbatim>\<open>Polygon::add\<close>\<close>

text \<open>
  The buffer grows by 16384 elements when fewer than 8 are free; the new elements hold
  zeros here.
\<close>

definition grow_points :: "Polygon \<Rightarrow> Polygon" where
  "grow_points p =
     (if pointcount p > memused p - 8
      then p\<lparr>points := take (nat (pointcount p)) (points p)
                          @ replicate (nat (memused p + 16384) - nat (pointcount p)) \<lparr>X = 0, Y = 0\<rparr>,
             memused := memused p + 16384\<rparr>
      else p)"

definition add :: "Polygon \<Rightarrow> int \<Rightarrow> int \<Rightarrow> error + Polygon" where
  "add p0 ax ay =
     (let p1 = grow_points p0;
          p = grow_box (pointcount p1 = 0) ax ay p1;
          n = pointcount p;
          new = \<lparr>X = ax, Y = ay\<rparr>
      in if n \<ge> 2
         then bindE (rd (points p) (n - 1)) (\<lambda>b.
              bindE (rd (points p) (n - 2)) (\<lambda>a.
                if ax = X b \<and> ax = X a
                then bindE (wr (points p) (n - 1) new) (\<lambda>ps. Inr (p\<lparr>points := ps\<rparr>))
                else if ay = Y b \<and> ay = Y a
                then bindE (wr (points p) (n - 1) new) (\<lambda>ps. Inr (p\<lparr>points := ps\<rparr>))
                else bindE (wr (points p) n new) (\<lambda>ps. Inr (p\<lparr>points := ps, pointcount := n + 1\<rparr>))))
         else bindE (wr (points p) n new) (\<lambda>ps. Inr (p\<lparr>points := ps, pointcount := n + 1\<rparr>)))"

subsection \<open>\<^verbatim>\<open>Polygon::trimColinearStart\<close>\<close>

text \<open>
  One round of the \<^verbatim>\<open>while\<close> loop either shortens the polygon or leaves the loop, so
  the loop is a recursion on \<open>pointcount\<close>. The two assignments are the source's:
  \<^verbatim>\<open>points[0].x=points[pointcount-1].x; points[1].x=points[pointcount-1].y;\<close>
\<close>

function trimColinearStart :: "Polygon \<Rightarrow> error + Polygon" where
  "trimColinearStart p =
     (if pointcount p \<ge> 3
      then bindE (rd (points p) 0) (\<lambda>p0.
           bindE (rd (points p) 1) (\<lambda>p1.
           bindE (rd (points p) (pointcount p - 2)) (\<lambda>pe.
             if (X p0 = X p1 \<and> X p0 = X pe) \<or> (Y p0 = Y p1 \<and> Y p0 = Y pe)
             then (let n = pointcount p - 1 in
                   bindE (rd (points p) (n - 1)) (\<lambda>l.
                   bindE (wr (points p) 0 (p0\<lparr>X := X l\<rparr>)) (\<lambda>ps0.
                   bindE (rd ps0 1) (\<lambda>q1.
                   bindE (wr ps0 1 (q1\<lparr>X := Y l\<rparr>)) (\<lambda>ps1.
                     trimColinearStart (p\<lparr>pointcount := n, points := ps1\<rparr>))))))
             else Inr p)))
      else Inr p)"
  by pat_completeness auto
termination
  by (relation "measure (\<lambda>p. nat (pointcount p))") auto

declare trimColinearStart.simps [simp del]

subsection \<open>\<^verbatim>\<open>Polygon::prepareY\<close> and \<^verbatim>\<open>Polygon::unPrepareY\<close>\<close>

definition BUFFER :: int where
  "BUFFER = 2"

definition in_band :: "int \<Rightarrow> PolygonPoint \<Rightarrow> PolygonPoint \<Rightarrow> bool" where
  "in_band ay a b =
     ((Y a \<le> ay + BUFFER \<and> Y b \<ge> ay - BUFFER) \<or> (Y a \<ge> ay - BUFFER \<and> Y b \<le> ay + BUFFER))"

text \<open>The \<^verbatim>\<open>for\<close> loop of \<^verbatim>\<open>prepareY\<close>; its state is \<^verbatim>\<open>li\<close> and the table.\<close>

function prepareY_loop :: "Polygon \<Rightarrow> int \<Rightarrow> int \<Rightarrow> int \<Rightarrow> int list \<Rightarrow> error + (int \<times> int list)" where
  "prepareY_loop p ay i li yp =
     (if i < pointcount p
      then bindE (rd (points p) (i - 1)) (\<lambda>a.
           bindE (rd (points p) i) (\<lambda>b.
             if in_band ay a b
             then bindE (wr yp (if li \<ge> 0 then li else 0) i) (\<lambda>yp'.
                    prepareY_loop p ay (i + 1) i yp')
             else prepareY_loop p ay (i + 1) li yp))
      else Inr (li, yp))"
  by pat_completeness auto
termination
  by (relation "measure (\<lambda>(p, ay, i, li, yp). nat (pointcount p - i))") auto

declare prepareY_loop.simps [simp del]

definition prepareY :: "Polygon \<Rightarrow> int \<Rightarrow> error + Polygon" where
  "prepareY p ay =
     bindE (prepareY_loop p ay 1 (- 1) (yprepare p)) (\<lambda>(li, yp).
     bindE (wr yp (if li \<ge> 0 then li else 0) (pointcount p + 16)) (\<lambda>yp'.
       Inr (p\<lparr>useprepare := 1, yprepare := yp'\<rparr>)))"

definition unPrepareY :: "Polygon \<Rightarrow> Polygon" where
  "unPrepareY p = p\<lparr>useprepare := 0\<rparr>"


section \<open>The point-in-polygon test\<close>

text \<open>
  What the body of the \<^verbatim>\<open>while\<close> loop of \<^verbatim>\<open>point_in_polygonVH\<close> does with the edge
  from \<open>points[i-1]\<close> to \<open>points[i]\<close>: it returns from the function, or goes on with
  a new value of \<^verbatim>\<open>even\<close>.
\<close>

datatype edge_result = Return pip | Continue int

definition through :: "int \<Rightarrow> int \<Rightarrow> int \<Rightarrow> bool" where
  "through y0 y1 y2 = ((y0 < y1 \<and> y1 < y2) \<or> (y0 > y1 \<and> y1 > y2))"

definition pip_edge :: "Polygon \<Rightarrow> int \<Rightarrow> int \<Rightarrow> int \<Rightarrow> int \<Rightarrow> error + edge_result" where
  "pip_edge apg ax ay i ev =
     bindE (rd (points apg) i) (\<lambda>pi.
     bindE (rd (points apg) (i - 1)) (\<lambda>pj.
       if X pi = X pj
       then (let miy = minimumI (Y pi) (Y pj); may = maximumI (Y pi) (Y pj)
             in if X pi = ax \<and> miy \<le> ay \<and> ay \<le> may then Inr (Return PIP_BOUNDARY)
                else if ax < X pi \<and> miy \<le> ay \<and> ay \<le> may
                then (if ay = Y pi
                      then bindE (if i > 0 then rd (points apg) (i - 1)
                                  else rd (points apg) (pointcount apg - 2)) (\<lambda>q0.
                           bindE (if i < pointcount apg - 1 then rd (points apg) (i + 1)
                                  else rd (points apg) 1) (\<lambda>q2.
                             Inr (Continue (if through (Y q0) (Y pi) (Y q2) then 1 - ev else ev))))
                      else if miy < ay \<and> ay < may then Inr (Continue (1 - ev))
                      else Inr (Continue ev))
                else Inr (Continue ev))
       else if Y pi = Y pj
       then (let minx = minimumI (X pi) (X pj); maxx = maximumI (X pi) (X pj)
             in if Y pi = ay \<and> minx \<le> ax \<and> ax \<le> maxx then Inr (Return PIP_BOUNDARY)
                else if ay = Y pi \<and> minx > ax
                then bindE (if i > 1 then rd (points apg) (i - 2)
                            else rd (points apg) (pointcount apg - 2)) (\<lambda>q0.
                     bindE (if i > 1 \<or> i = 1 then rd (points apg) i else rd (points apg) 0) (\<lambda>q1.
                     bindE (if i < pointcount apg - 1 then rd (points apg) (i + 1)
                            else rd (points apg) 1) (\<lambda>q2.
                       Inr (Continue (if through (Y q0) (Y q1) (Y q2) then 1 - ev else ev)))))
                else Inr (Continue ev))
       else Inl Exit99))"

definition pip_final :: "int \<Rightarrow> pip" where
  "pip_final ev = (if ev > 0 then PIP_EXTERIOR else PIP_INTERIOR)"

text \<open>
  The \<^verbatim>\<open>while\<close> loop. With \<^verbatim>\<open>useprepare\<close> set it follows the jump table, whose
  content decides whether it ends, so the loop is a partial function: \<open>None\<close> is a
  run that does not return.
\<close>

partial_function (option) pip_loop :: "Polygon \<Rightarrow> int \<Rightarrow> int \<Rightarrow> int \<Rightarrow> int \<Rightarrow> (error + pip) option" where
  "pip_loop apg ax ay i ev =
     (if i < pointcount apg - 1
      then (case (if useprepare apg > 0 then rd (yprepare apg) i else Inr (i + 1)) of
              Inl e \<Rightarrow> Some (Inl e)
            | Inr i' \<Rightarrow>
                if i' \<ge> pointcount apg then Some (Inr (pip_final ev))
                else (case pip_edge apg ax ay i' ev of
                        Inl e \<Rightarrow> Some (Inl e)
                      | Inr (Return r) \<Rightarrow> Some (Inr r)
                      | Inr (Continue ev2) \<Rightarrow> pip_loop apg ax ay i' ev2))
      else Some (Inr (pip_final ev)))"

declare pip_loop.simps [code]

definition point_in_polygonVH :: "Polygon \<Rightarrow> int \<Rightarrow> int \<Rightarrow> (error + pip) option" where
  "point_in_polygonVH apg ax ay =
     (if ax < xmin apg \<or> ax > xmax apg \<or> ay < ymin apg \<or> ay > ymax apg
      then Some (Inr PIP_EXTERIOR)
      else pip_loop apg ax ay 0 1)"


section \<open>The oracle for a set of polygons\<close>

definition mxy :: int where
  "mxy = 2"

definition AREA :: int where
  "AREA = (mxy + mxy + 1) * (mxy + mxy + 1)"

text \<open>
  The two nested \<^verbatim>\<open>for\<close> loops over \<^verbatim>\<open>dy\<close> and \<^verbatim>\<open>dx\<close>, which stop as soon as
  \<^verbatim>\<open>ic\<close> is negative; \<open>want\<close> is the classification that counts.
\<close>

fun nbhd_dx :: "Polygon \<Rightarrow> pip \<Rightarrow> int \<Rightarrow> int \<Rightarrow> int list \<Rightarrow> int \<Rightarrow> (error + int) option" where
  "nbhd_dx p want px pyd [] ic = Some (Inr ic)"
| "nbhd_dx p want px pyd (dx # dxs) ic =
     (if ic \<ge> 0
      then (case point_in_polygonVH p (px + dx) pyd of
              None \<Rightarrow> None
            | Some (Inl e) \<Rightarrow> Some (Inl e)
            | Some (Inr r) \<Rightarrow> nbhd_dx p want px pyd dxs (if r = want then ic + 1 else - 1))
      else Some (Inr ic))"

fun nbhd_dy :: "Polygon \<Rightarrow> pip \<Rightarrow> int \<Rightarrow> int \<Rightarrow> int list \<Rightarrow> int \<Rightarrow> (error + int) option" where
  "nbhd_dy p want px py [] ic = Some (Inr ic)"
| "nbhd_dy p want px py (dy # dys) ic =
     (if ic \<ge> 0
      then (case nbhd_dx p want px (py + dy) [- mxy .. mxy] ic of
              None \<Rightarrow> None
            | Some (Inl e) \<Rightarrow> Some (Inl e)
            | Some (Inr ic') \<Rightarrow> nbhd_dy p want px py dys ic')
      else Some (Inr ic))"

definition nbhd_count :: "Polygon \<Rightarrow> pip \<Rightarrow> int \<Rightarrow> int \<Rightarrow> (error + int) option" where
  "nbhd_count p want px py = nbhd_dy p want px py [- mxy .. mxy] 0"

text \<open>
  \<open>cv a n\<close> stands for \<^verbatim>\<open>(int)floor(a*n)\<close>, computed in \<^verbatim>\<open>double\<close>: the conversion of
  a coordinate of the query to the units of a polygon with denominator \<open>n\<close>. It is a
  parameter, so that nothing is assumed about floating-point arithmetic.
\<close>

fun jsoracle_ext :: "('r \<Rightarrow> int \<Rightarrow> int) \<Rightarrow> Polygon list \<Rightarrow> 'r \<Rightarrow> 'r \<Rightarrow> pip \<Rightarrow> (error + (bool \<times> pip)) option" where
  "jsoracle_ext cv [] ax ay ergext = Some (Inr (False, ergext))"
| "jsoracle_ext cv (p # ps) ax ay ergext =
     (if pointcount p > 0
      then (case nbhd_count p PIP_EXTERIOR (cv ax (nenner p)) (cv ay (nenner p)) of
              None \<Rightarrow> None
            | Some (Inl e) \<Rightarrow> Some (Inl e)
            | Some (Inr ic) \<Rightarrow>
                if ic \<noteq> AREA then Some (Inr (True, PIP_UNKNOWN))
                else jsoracle_ext cv ps ax ay PIP_EXTERIOR)
      else jsoracle_ext cv ps ax ay ergext)"

fun jsoracle_int :: "('r \<Rightarrow> int \<Rightarrow> int) \<Rightarrow> Polygon list \<Rightarrow> 'r \<Rightarrow> 'r \<Rightarrow> (error + bool) option" where
  "jsoracle_int cv [] ax ay = Some (Inr False)"
| "jsoracle_int cv (p # ps) ax ay =
     (case nbhd_count p PIP_INTERIOR (cv ax (nenner p)) (cv ay (nenner p)) of
        None \<Rightarrow> None
      | Some (Inl e) \<Rightarrow> Some (Inl e)
      | Some (Inr ic) \<Rightarrow> if ic = AREA then Some (Inr True) else jsoracle_int cv ps ax ay)"

text \<open>
  \<^verbatim>\<open>jsoracle\<close>; the globals \<^verbatim>\<open>intp\<close>, \<^verbatim>\<open>extp\<close> with their counts are the two lists.
  The first loop answers whether it returned \<^verbatim>\<open>PIP_INTERIOR\<close>; the second whether it
  returned \<^verbatim>\<open>PIP_UNKNOWN\<close> from inside, and \<^verbatim>\<open>ergext\<close>.
\<close>

definition jsoracle :: "('r \<Rightarrow> int \<Rightarrow> int) \<Rightarrow> Polygon list \<Rightarrow> Polygon list \<Rightarrow> 'r \<Rightarrow> 'r \<Rightarrow> (error + pip) option" where
  "jsoracle cv intp extp ax ay =
     (case jsoracle_int cv intp ax ay of
        None \<Rightarrow> None
      | Some (Inl e) \<Rightarrow> Some (Inl e)
      | Some (Inr True) \<Rightarrow> Some (Inr PIP_INTERIOR)
      | Some (Inr False) \<Rightarrow>
          (case jsoracle_ext cv extp ax ay PIP_UNKNOWN of
             None \<Rightarrow> None
           | Some (Inl e) \<Rightarrow> Some (Inl e)
           | Some (Inr (True, r)) \<Rightarrow> Some (Inr r)
           | Some (Inr (False, ergext)) \<Rightarrow>
               if ergext = PIP_EXTERIOR \<and> int (length extp) > 0 then Some (Inr PIP_EXTERIOR)
               else Some (Inr PIP_UNKNOWN)))"

text \<open>The conversion in exact arithmetic, for the examples.\<close>

definition to_units :: "rat \<Rightarrow> int \<Rightarrow> int" where
  "to_units a n = \<lfloor>a * of_int n\<rfloor>"

section \<open>Notions used to state the properties of the oracle\<close>

text \<open>A call that returns a value: it neither aborts nor runs forever.\<close>

definition returns :: "(error + 'a) option \<Rightarrow> bool" where
  "returns m = (case m of Some (Inr _) \<Rightarrow> True | _ \<Rightarrow> False)"

text \<open>
  Every point of the block of side \<open>2 * mxy + 1\<close> around \<open>(px, py)\<close> is classified as
  \<open>r\<close> by the polygon; every point of the block gets some classification.
\<close>

definition nbhd_all :: "Polygon \<Rightarrow> pip \<Rightarrow> int \<Rightarrow> int \<Rightarrow> bool" where
  "nbhd_all p r px py =
     (\<forall>dy\<in>set [- mxy .. mxy]. \<forall>dx\<in>set [- mxy .. mxy].
        point_in_polygonVH p (px + dx) (py + dy) = Some (Inr r))"

definition nbhd_returns :: "Polygon \<Rightarrow> int \<Rightarrow> int \<Rightarrow> bool" where
  "nbhd_returns p px py =
     (\<forall>dy\<in>set [- mxy .. mxy]. \<forall>dx\<in>set [- mxy .. mxy].
        returns (point_in_polygonVH p (px + dx) (py + dy)))"

text \<open>The same for a query in the units of the query, converted for the polygon.\<close>

definition classifies :: "('r \<Rightarrow> int \<Rightarrow> int) \<Rightarrow> 'r \<Rightarrow> 'r \<Rightarrow> pip \<Rightarrow> Polygon \<Rightarrow> bool" where
  "classifies cv ax ay r p = nbhd_all p r (cv ax (nenner p)) (cv ay (nenner p))"

definition answers :: "('r \<Rightarrow> int \<Rightarrow> int) \<Rightarrow> 'r \<Rightarrow> 'r \<Rightarrow> Polygon \<Rightarrow> bool" where
  "answers cv ax ay p = nbhd_returns p (cv ax (nenner p)) (cv ay (nenner p))"

text \<open>Two polygons as \<^verbatim>\<open>Polygon::load\<close> builds them: a square and one with a diagonal edge.\<close>

definition square_example :: Polygon where
  "square_example =
     \<lparr>pointcount = 5, memused = 5, useprepare = 0,
      points = [\<lparr>X = 0, Y = 0\<rparr>, \<lparr>X = 100, Y = 0\<rparr>, \<lparr>X = 100, Y = 100\<rparr>, \<lparr>X = 0, Y = 100\<rparr>, \<lparr>X = 0, Y = 0\<rparr>],
      nenner = 1, cx0 = - 2, cx1 = 2, cy0 = - 2, cy1 = 2,
      xmin = - 8, xmax = 108, ymin = - 8, ymax = 108, yprepare = [0, 0, 0, 0, 0]\<rparr>"


section \<open>Notions used to state the properties of the point-in-polygon test\<close>

text \<open>
  A closed axis-aligned square: five vertices, the last one the first again, edges
  alternately horizontal and vertical (in either order), the first and third vertex
  opposite corners, and both sides of one positive length.
\<close>

definition is_square :: "PolygonPoint list \<Rightarrow> bool" where
  "is_square ps =
     (case ps of
        [a, b, c, d, e] \<Rightarrow>
          e = a \<and> X c \<noteq> X a \<and> \<bar>X c - X a\<bar> = \<bar>Y c - Y a\<bar> \<and>
          ((Y b = Y a \<and> X b = X c \<and> Y d = Y c \<and> X d = X a) \<or>
           (X b = X a \<and> Y b = Y c \<and> X d = X c \<and> Y d = Y a))
      | _ \<Rightarrow> False)"

text \<open>The position of a point relative to the square with opposite corners \<open>a\<close> and \<open>c\<close>.\<close>

definition strictly_inside :: "PolygonPoint \<Rightarrow> PolygonPoint \<Rightarrow> int \<Rightarrow> int \<Rightarrow> bool" where
  "strictly_inside a c ax ay =
     (min (X a) (X c) < ax \<and> ax < max (X a) (X c) \<and> min (Y a) (Y c) < ay \<and> ay < max (Y a) (Y c))"

definition on_an_edge :: "PolygonPoint \<Rightarrow> PolygonPoint \<Rightarrow> int \<Rightarrow> int \<Rightarrow> bool" where
  "on_an_edge a c ax ay =
     (((ax = X a \<or> ax = X c) \<and> min (Y a) (Y c) \<le> ay \<and> ay \<le> max (Y a) (Y c)) \<or>
      ((ay = Y a \<or> ay = Y c) \<and> min (X a) (X c) \<le> ax \<and> ax \<le> max (X a) (X c)))"

text \<open>
  The bounding box of the polygon contains its vertices; \<^verbatim>\<open>Polygon::load\<close> and
  \<^verbatim>\<open>Polygon::add\<close> see to that.
\<close>

definition box_covers :: "Polygon \<Rightarrow> bool" where
  "box_covers p =
     list_all (\<lambda>q. xmin p \<le> X q \<and> X q \<le> xmax p \<and> ymin p \<le> Y q \<and> Y q \<le> ymax p)
       (take (nat (pointcount p)) (points p))"

definition in_box :: "Polygon \<Rightarrow> PolygonPoint \<Rightarrow> bool" where
  "in_box p q = (xmin p \<le> X q \<and> X q \<le> xmax p \<and> ymin p \<le> Y q \<and> Y q \<le> ymax p)"

section \<open>Notions used to compare the test with and without the jump table\<close>

text \<open>
  The edges taken one after the other, as the \<^verbatim>\<open>while\<close> loop of
  \<^verbatim>\<open>point_in_polygonVH\<close> treats the edges it visits: the first edge that returns ends
  the walk.
\<close>

fun run_edges :: "Polygon \<Rightarrow> int \<Rightarrow> int \<Rightarrow> int list \<Rightarrow> int \<Rightarrow> (error + pip) option" where
  "run_edges apg ax ay [] ev = Some (Inr (pip_final ev))"
| "run_edges apg ax ay (j # js) ev =
     (case pip_edge apg ax ay j ev of
        Inl e \<Rightarrow> Some (Inl e)
      | Inr (Return r) \<Rightarrow> Some (Inr r)
      | Inr (Continue ev2) \<Rightarrow> run_edges apg ax ay js ev2)"

text \<open>The edge that ends in vertex \<open>j\<close> meets the band of \<^verbatim>\<open>prepareY\<close> around \<open>ay\<close>.\<close>

definition edge_in_band :: "Polygon \<Rightarrow> int \<Rightarrow> int \<Rightarrow> bool" where
  "edge_in_band p ay j = in_band ay (points p ! nat (j - 1)) (points p ! nat j)"

text \<open>Following the table \<open>yp\<close> from index \<open>s\<close> visits the indices \<open>js\<close> and then reads \<open>e\<close>.\<close>

fun chain :: "int list \<Rightarrow> int \<Rightarrow> int list \<Rightarrow> int \<Rightarrow> bool" where
  "chain yp s [] e = (rd yp s = Inr e)"
| "chain yp s (j # js) e = (rd yp s = Inr j \<and> chain yp j js e)"

text \<open>The edges from \<open>i\<close> on that meet the band, in their order.\<close>

definition band_from :: "Polygon \<Rightarrow> int \<Rightarrow> int \<Rightarrow> int list" where
  "band_from p ay i = filter (edge_in_band p ay) [i .. pointcount p - 1]"


section \<open>struct Charmap\<close>

text \<open>
  The raster is the byte buffer \<^verbatim>\<open>cmp\<close>, read and written at \<open>ay * xlen + ax\<close> without
  a check of the coordinates, as in the source. The palette serves the image files
  only and is left out.
\<close>

record Charmap =
  xlen :: int
  ylen :: int
  cmemused :: int
  cmp :: "BYTE list"

definition getPoint :: "Charmap \<Rightarrow> int \<Rightarrow> int \<Rightarrow> error + BYTE" where
  "getPoint c ax ay = rd (cmp c) (ay * xlen c + ax)"

definition setPoint :: "Charmap \<Rightarrow> int \<Rightarrow> int \<Rightarrow> BYTE \<Rightarrow> error + Charmap" where
  "setPoint c ax ay awert = bindE (wr (cmp c) (ay * xlen c + ax) awert) (\<lambda>m. Inr (c\<lparr>cmp := m\<rparr>))"

text \<open>\<^verbatim>\<open>for(int i=lo;i<n;i++) body\<close> on a state, where the body can end the run.\<close>

function forE :: "int \<Rightarrow> int \<Rightarrow> (int \<Rightarrow> 's \<Rightarrow> error + 's) \<Rightarrow> 's \<Rightarrow> error + 's" where
  "forE i n body s =
     (if i < n
      then (case body i s of Inl e \<Rightarrow> Inl e | Inr s' \<Rightarrow> forE (i + 1) n body s')
      else Inr s)"
  by pat_completeness auto
termination
  by (relation "measure (\<lambda>(i, n, body, s). nat (n - i))") auto

declare forE.simps [simp del]

text \<open>\<^verbatim>\<open>a && b\<close> and \<^verbatim>\<open>a || b\<close>: the right operand is read only when it decides.\<close>

definition andE :: "error + bool \<Rightarrow> error + bool \<Rightarrow> error + bool" where
  "andE a b = bindE a (\<lambda>r. if r then b else Inr False)"

definition orE :: "error + bool \<Rightarrow> error + bool \<Rightarrow> error + bool" where
  "orE a b = bindE a (\<lambda>r. if r then Inr True else b)"

text \<open>\<^verbatim>\<open>getPoint(x,y) == f\<close> for a byte \<open>f\<close>, and for the \<^verbatim>\<open>int\<close> parameter \<^verbatim>\<open>relf\<close>.\<close>

definition is_col :: "Charmap \<Rightarrow> int \<Rightarrow> int \<Rightarrow> BYTE \<Rightarrow> error + bool" where
  "is_col c ax ay f = bindE (getPoint c ax ay) (\<lambda>v. Inr (v = f))"

definition is_relf :: "Charmap \<Rightarrow> int \<Rightarrow> int \<Rightarrow> int \<Rightarrow> error + bool" where
  "is_relf c ax ay relf = bindE (getPoint c ax ay) (\<lambda>v. Inr (uint v = relf))"


section \<open>The snippet fusion of floodFillPattern\<close>

text \<open>
  The two loops that look for gray beside the gap; the result is \<^verbatim>\<open>korrekt\<close>. They
  stop at the first gray pixel.
\<close>

fun flank_h :: "Charmap \<Rightarrow> int \<Rightarrow> int \<Rightarrow> int list \<Rightarrow> error + bool" where
  "flank_h c x y [] = Inr True"
| "flank_h c x y (dx # dxs) =
     bindE (orE (is_col c (x + dx) (y - 1) COLORGRAY) (is_col c (x + dx) (y + 1) COLORGRAY)) (\<lambda>g.
       if g then Inr False else flank_h c x y dxs)"

fun flank_v :: "Charmap \<Rightarrow> int \<Rightarrow> int \<Rightarrow> int list \<Rightarrow> error + bool" where
  "flank_v c x y [] = Inr True"
| "flank_v c x y (dy # dys) =
     bindE (orE (is_col c (x - 1) (y + dy) COLORGRAY) (is_col c (x + 1) (y + dy) COLORGRAY)) (\<lambda>g.
       if g then Inr False else flank_v c x y dys)"

text \<open>
  The two conditions on the pixels beside \<open>(x, y)\<close>: a second pixel of the colour
  \<^verbatim>\<open>relf\<close> follows, and active pixels stand before and after the two.
\<close>

definition pattern_h :: "int \<Rightarrow> Charmap \<Rightarrow> int \<Rightarrow> int \<Rightarrow> error + bool" where
  "pattern_h relf c x y =
     andE (is_relf c (x + 1) y relf) (andE (is_col c (x - 1) y AKTIVCOL) (is_col c (x + 2) y AKTIVCOL))"

definition pattern_v :: "int \<Rightarrow> Charmap \<Rightarrow> int \<Rightarrow> int \<Rightarrow> error + bool" where
  "pattern_v relf c x y =
     andE (is_relf c x (y + 1) relf) (andE (is_col c x (y + 2) AKTIVCOL) (is_col c x (y - 1) AKTIVCOL))"

text \<open>The body of the two \<^verbatim>\<open>for\<close> loops at the pixel \<open>(x, y)\<close>; the state is the raster and \<^verbatim>\<open>changed\<close>.\<close>

definition fusion_pixel :: "int \<Rightarrow> int \<Rightarrow> int \<Rightarrow> Charmap \<times> int \<Rightarrow> error + (Charmap \<times> int)" where
  "fusion_pixel relf y x st =
     (case st of (c, changed) \<Rightarrow>
        bindE (is_relf c x y relf) (\<lambda>here.
          if \<not> here then Inr (c, changed)
          else bindE (pattern_h relf c x y) (\<lambda>h.
                 if h
                 then bindE (flank_h c x y [0 .. 3]) (\<lambda>korrekt.
                        if korrekt
                        then bindE (setPoint c x y AKTIVCOL) (\<lambda>c1.
                             bindE (setPoint c1 (x + 1) y AKTIVCOL) (\<lambda>c2. Inr (c2, 1)))
                        else Inr (c, changed))
                 else bindE (pattern_v relf c x y) (\<lambda>v.
                        if v
                        then bindE (flank_v c x y [0 .. 3]) (\<lambda>korrekt.
                               if korrekt
                               then bindE (setPoint c x y AKTIVCOL) (\<lambda>c1.
                                    bindE (setPoint c1 x (y + 1) AKTIVCOL) (\<lambda>c2. Inr (c2, 1)))
                               else Inr (c, changed))
                        else Inr (c, changed)))))"

text \<open>One round of the \<^verbatim>\<open>while\<close> loop: \<^verbatim>\<open>changed=0\<close> and the two \<^verbatim>\<open>for\<close> loops.\<close>

definition fusion_pass :: "int \<Rightarrow> Charmap \<Rightarrow> error + (Charmap \<times> int)" where
  "fusion_pass relf c =
     forE 1 (ylen c - 2) (\<lambda>y st. forE 1 (xlen (fst st) - 2) (fusion_pixel relf y) st) (c, 0)"

text \<open>\<^verbatim>\<open>while (changed>0)\<close>, entered with \<^verbatim>\<open>changed=1\<close>. \<open>None\<close> is a loop that never ends.\<close>

partial_function (option) connect_snippets :: "int \<Rightarrow> Charmap \<Rightarrow> (error + Charmap) option" where
  "connect_snippets relf c =
     (case fusion_pass relf c of
        Inl e \<Rightarrow> Some (Inl e)
      | Inr (c', changed) \<Rightarrow> if changed > 0 then connect_snippets relf c' else Some (Inr c'))"

declare connect_snippets.simps [code]


section \<open>buildPolygon\<close>

text \<open>
  The four neighbours are tried in the order of the source: \<open>+x\<close>, \<open>-x\<close>, \<open>-y\<close>, \<open>+y\<close>.
  The result is the neighbour chosen, if one is blue.
\<close>

definition next_blue :: "Charmap \<Rightarrow> int \<Rightarrow> int \<Rightarrow> error + (int \<times> int) option" where
  "next_blue blau aktx akty =
     bindE (is_col blau (aktx + 1) akty COLORBLUE) (\<lambda>b1.
       if b1 then Inr (Some (aktx + 1, akty))
       else bindE (is_col blau (aktx - 1) akty COLORBLUE) (\<lambda>b2.
         if b2 then Inr (Some (aktx - 1, akty))
         else bindE (is_col blau aktx (akty - 1) COLORBLUE) (\<lambda>b3.
           if b3 then Inr (Some (aktx, akty - 1))
           else bindE (is_col blau aktx (akty + 1) COLORBLUE) (\<lambda>b4.
             if b4 then Inr (Some (aktx, akty + 1))
             else Inr None))))"

text \<open>
  \<^verbatim>\<open>POLYGONADD(XX,YY)\<close>: \<open>cv\<close> stands for the conversion of a pixel index to rational
  units, \<^verbatim>\<open>(int)floor((XX*skalaRangeProPixel + RANGE0) * NENNER)\<close> in \<^verbatim>\<open>double\<close>; it is a
  parameter.
\<close>

definition POLYGONADD :: "(int \<Rightarrow> int) \<Rightarrow> Polygon \<Rightarrow> int \<Rightarrow> int \<Rightarrow> error + Polygon" where
  "POLYGONADD cv p1 XX YY = add p1 (cv XX) (cv YY)"

text \<open>
  The \<^verbatim>\<open>while (1)\<close> loop that follows the blue pixels from \<open>(aktx, akty)\<close> until it is
  back at the start. When no blue neighbour is left the source writes a diagnostic
  image and calls \<^verbatim>\<open>exit(99)\<close>.
\<close>

partial_function (option) walk ::
    "(int \<Rightarrow> int) \<Rightarrow> int \<Rightarrow> int \<Rightarrow> Charmap \<Rightarrow> Polygon \<Rightarrow> int \<Rightarrow> int \<Rightarrow> (error + (Charmap \<times> Polygon)) option" where
  "walk cv startx starty blau p1 aktx akty =
     (if aktx = startx \<and> akty = starty then Some (Inr (blau, p1))
      else (case next_blue blau aktx akty of
              Inl e \<Rightarrow> Some (Inl e)
            | Inr None \<Rightarrow> Some (Inl Exit99)
            | Inr (Some (nx, ny)) \<Rightarrow>
                (case setPoint blau nx ny COLORYELLOW of
                   Inl e \<Rightarrow> Some (Inl e)
                 | Inr blau' \<Rightarrow>
                     (case POLYGONADD cv p1 nx ny of
                        Inl e \<Rightarrow> Some (Inl e)
                      | Inr p1' \<Rightarrow> walk cv startx starty blau' p1' nx ny))))"

declare walk.simps [code]

text \<open>The search for a blue pixel, row by row from the top, each row from the left.\<close>

function find_blue_x :: "Charmap \<Rightarrow> int \<Rightarrow> int \<Rightarrow> error + int option" where
  "find_blue_x blau y x =
     (if x < xlen blau
      then bindE (is_col blau x y COLORBLUE) (\<lambda>b. if b then Inr (Some x) else find_blue_x blau y (x + 1))
      else Inr None)"
  by pat_completeness auto
termination
  by (relation "measure (\<lambda>(blau, y, x). nat (xlen blau - x))") auto

declare find_blue_x.simps [simp del]

function find_blue :: "Charmap \<Rightarrow> int \<Rightarrow> error + (int \<times> int) option" where
  "find_blue blau y =
     (if y < ylen blau
      then bindE (find_blue_x blau y 0) (\<lambda>r.
             case r of Some x \<Rightarrow> Inr (Some (x, y)) | None \<Rightarrow> find_blue blau (y + 1))
      else Inr None)"
  by pat_completeness auto
termination
  by (relation "measure (\<lambda>(blau, y). nat (ylen blau - y))") auto

declare find_blue.simps [simp del]

text \<open>
  The polygon of one start pixel: a fresh polygon with room for \<^verbatim>\<open>xlen << 4\<close> points and
  the denominator \<open>2 ^ 25\<close>, the first step marked, the start and the first step added,
  the walk, and \<^verbatim>\<open>trimColinearStart\<close>.
\<close>

definition NENNER :: int where
  "NENNER = 2 ^ 25"

definition trace_polygon ::
    "(int \<Rightarrow> int) \<Rightarrow> int \<Rightarrow> int \<Rightarrow> Charmap \<Rightarrow> int \<Rightarrow> int \<Rightarrow> int \<Rightarrow> int \<Rightarrow> (error + (Charmap \<times> Polygon)) option" where
  "trace_polygon cv R0 R1 blau startx starty nx ny =
     (case bindE (setlen (Polygon_new raw_polygon) (xlen blau * 16)) (\<lambda>p0.
           bindE (setPoint blau nx ny COLORYELLOW) (\<lambda>blau1.
           bindE (POLYGONADD cv (p0\<lparr>nenner := NENNER, cx0 := of_int R0, cy0 := of_int R0,
                                     cx1 := of_int R1, cy1 := of_int R1\<rparr>) startx starty) (\<lambda>pa.
           bindE (POLYGONADD cv pa nx ny) (\<lambda>pb. Inr (blau1, pb))))) of
        Inl e \<Rightarrow> Some (Inl e)
      | Inr (blau1, pb) \<Rightarrow>
          (case walk cv startx starty blau1 pb nx ny of
             None \<Rightarrow> None
           | Some (Inl e) \<Rightarrow> Some (Inl e)
           | Some (Inr (blau2, p1)) \<Rightarrow>
               (case trimColinearStart p1 of
                  Inl e \<Rightarrow> Some (Inl e)
                | Inr p2 \<Rightarrow> Some (Inr (blau2, p2)))))"

text \<open>
  The outer \<^verbatim>\<open>while\<close> loop of \<^verbatim>\<open>buildPolygon\<close>. \<open>lb\<close> is the global
  \<^verbatim>\<open>LOWERBOUNDPOLYGONLENGTH\<close>; \<open>out\<close> collects the polygons handed to \<^verbatim>\<open>Polygon::save\<close>, in
  their order. The files of these polygons are written inside the loop, so they stay
  written when a later walk ends the run: the result is the way the run ends (the
  raster, or the error) together with the polygons handed out until then.
\<close>

partial_function (option) build_loop ::
    "(int \<Rightarrow> int) \<Rightarrow> int \<Rightarrow> int \<Rightarrow> int \<Rightarrow> Charmap \<Rightarrow> Polygon list \<Rightarrow> ((error + Charmap) \<times> Polygon list) option" where
  "build_loop cv R0 R1 lb blau out =
     (case find_blue blau 0 of
        Inl e \<Rightarrow> Some (Inl e, out)
      | Inr None \<Rightarrow> Some (Inr blau, out)
      | Inr (Some (startx, starty)) \<Rightarrow>
          (case next_blue blau startx starty of
             Inl e \<Rightarrow> Some (Inl e, out)
           | Inr None \<Rightarrow>
               (case setPoint blau startx starty COLORYELLOW of
                  Inl e \<Rightarrow> Some (Inl e, out)
                | Inr blau' \<Rightarrow> build_loop cv R0 R1 lb blau' out)
           | Inr (Some (nx, ny)) \<Rightarrow>
               (case trace_polygon cv R0 R1 blau startx starty nx ny of
                  None \<Rightarrow> None
                | Some (Inl e) \<Rightarrow> Some (Inl e, out)
                | Some (Inr (blau2, p2)) \<Rightarrow>
                    build_loop cv R0 R1 lb blau2 (if pointcount p2 > lb then out @ [p2] else out))))"

declare build_loop.simps [code]

definition buildPolygon :: "(int \<Rightarrow> int) \<Rightarrow> int \<Rightarrow> int \<Rightarrow> int \<Rightarrow> Charmap \<Rightarrow> ((error + Charmap) \<times> Polygon list) option" where
  "buildPolygon cv R0 R1 lb blau = build_loop cv R0 R1 lb blau []"

text \<open>The number of pixels of one colour (given as \<^verbatim>\<open>int\<close>, as \<^verbatim>\<open>relf\<close> is) in the raster.\<close>

definition count_col :: "int \<Rightarrow> Charmap \<Rightarrow> nat" where
  "count_col f c = length (filter (\<lambda>v. uint v = f) (cmp c))"


section \<open>Notions used to state the properties of the fusion\<close>

text \<open>
  The window the source inspects beside a horizontal gap that starts at \<open>(x, y)\<close>: the
  columns \<open>x\<close> to \<open>x + 3\<close> of the rows \<open>y - 1\<close> and \<open>y + 1\<close> hold no gray pixel (and lie in
  the buffer); for a vertical gap, the rows \<open>y\<close> to \<open>y + 3\<close> of the columns \<open>x - 1\<close> and
  \<open>x + 1\<close>.
\<close>

definition gray_free_h :: "Charmap \<Rightarrow> int \<Rightarrow> int \<Rightarrow> bool" where
  "gray_free_h c x y =
     list_all (\<lambda>dx. is_col c (x + dx) (y - 1) COLORGRAY = Inr False \<and>
                    is_col c (x + dx) (y + 1) COLORGRAY = Inr False) [0 .. 3]"

definition gray_free_v :: "Charmap \<Rightarrow> int \<Rightarrow> int \<Rightarrow> bool" where
  "gray_free_v c x y =
     list_all (\<lambda>dy. is_col c (x - 1) (y + dy) COLORGRAY = Inr False \<and>
                    is_col c (x + 1) (y + dy) COLORGRAY = Inr False) [0 .. 3]"

text \<open>
  The pixel \<open>(x, y)\<close> is one that a pass of the fusion promotes: it has the colour
  \<^verbatim>\<open>relf\<close> and starts a horizontal gap of two such pixels between two active pixels with
  a gray-free window, or, when its row shows no such pattern, a vertical one.
\<close>

definition promotable :: "int \<Rightarrow> Charmap \<Rightarrow> int \<Rightarrow> int \<Rightarrow> bool" where
  "promotable relf c x y =
     (is_relf c x y relf = Inr True \<and>
      ((pattern_h relf c x y = Inr True \<and> gray_free_h c x y) \<or>
       (pattern_h relf c x y = Inr False \<and> pattern_v relf c x y = Inr True \<and> gray_free_v c x y)))"

text \<open>What a whole pass of the fusion does to the raster \<open>c\<close> and to \<^verbatim>\<open>changed\<close>: nothing, or
  \<^verbatim>\<open>changed\<close> is 1 and fewer pixels have the colour \<^verbatim>\<open>relf\<close>.\<close>

definition pass_inv :: "int \<Rightarrow> Charmap \<Rightarrow> Charmap \<times> int \<Rightarrow> bool" where
  "pass_inv relf c st =
     (st = (c, 0) \<or>
      (snd st = 1 \<and> count_col relf (fst st) < count_col relf c \<and> xlen (fst st) = xlen c \<and>
       ylen (fst st) = ylen c \<and> length (cmp (fst st)) = length (cmp c)))"

text \<open>A raster for the examples, of the colour black (2) with active pixels (16).\<close>

definition gap2_example :: Charmap where
  "gap2_example = \<lparr>xlen = 6, ylen = 5, cmemused = 30,
     cmp = [2, 2, 2, 2, 2, 2,
            2, 2, 2, 2, 2, 2,
            2, 16, 2, 2, 16, 2,
            2, 2, 2, 2, 2, 2,
            2, 2, 2, 2, 2, 2]\<rparr>"

text \<open>
  A raster for the tracer: a ring of blue pixels (5), the pixels \<open>1 \<le> x, y \<le> 4\<close> with
  \<open>x\<close> or \<open>y\<close> in \<open>{1, 4}\<close>, on black; and a conversion of pixel indices that is ten units
  a pixel.
\<close>

definition ring_example :: Charmap where
  "ring_example = \<lparr>xlen = 6, ylen = 6, cmemused = 36,
     cmp = [2, 2, 2, 2, 2, 2,
            2, 5, 5, 5, 5, 2,
            2, 5, 2, 2, 5, 2,
            2, 5, 2, 2, 5, 2,
            2, 5, 5, 5, 5, 2,
            2, 2, 2, 2, 2, 2]\<rparr>"

definition ten_units :: "int \<Rightarrow> int" where
  "ten_units i = 10 * i"



section \<open>Notions used to state the properties of the traced polygons\<close>





text \<open>The point that \<^verbatim>\<open>POLYGONADD\<close> adds for a pixel.\<close>

definition pt :: "(int \<Rightarrow> int) \<Rightarrow> int \<Rightarrow> int \<Rightarrow> PolygonPoint" where
  "pt cv x y = \<lparr>X = cv x, Y = cv y\<rparr>"








section \<open>Printing and scanning numerals\<close>

lemma digit_of_digit_char: "d < 10 \<Longrightarrow> digit_of 10 (digit_char d) = Some d"
  by (simp add: digit_of_def digit_char_def Let_def)

lemma digit_of8_zero: "digit_of 8 (digit_char 0) = Some 0"
  by (simp add: digit_of_def digit_char_def Let_def)

lemma scan_digits_print_nat:
  "scan_digits 10 acc (print_nat n @ rest) = scan_digits 10 (acc * 10 ^ length (print_nat n) + n) rest"
proof (induction n arbitrary: acc rest rule: print_nat.induct)
  case (1 n)
  show ?case
  proof (cases "n < 10")
    case True
    then show ?thesis
      by (simp add: print_nat.simps [of n] digit_of_digit_char)
  next
    case False
    have "scan_digits 10 acc (print_nat n @ rest)
        = scan_digits 10 acc (print_nat (n div 10) @ (digit_char (n mod 10) # rest))"
      using False by (simp add: print_nat.simps [of n])
    also have "\<dots> = scan_digits 10 (acc * 10 ^ length (print_nat (n div 10)) + n div 10) (digit_char (n mod 10) # rest)"
      using "1.IH" [OF False] by simp
    also have "\<dots> = scan_digits 10 ((acc * 10 ^ length (print_nat (n div 10)) + n div 10) * 10 + n mod 10) rest"
      by (simp add: digit_of_digit_char)
    also have "(acc * 10 ^ length (print_nat (n div 10)) + n div 10) * 10 + n mod 10
        = acc * 10 ^ length (print_nat n) + n"
      using False by (simp add: print_nat.simps [of n] algebra_simps)
    finally show ?thesis .
  qed
qed

lemma print_nat_hd: "\<exists>d cs. print_nat n = digit_char d # cs \<and> d < 10 \<and> (d = 0 \<longleftrightarrow> n = 0)"
proof (induction n rule: print_nat.induct)
  case (1 n)
  show ?case
  proof (cases "n < 10")
    case True
    then have "print_nat n = digit_char n # [] \<and> n < 10 \<and> (n = 0 \<longleftrightarrow> n = 0)"
      by (simp add: print_nat.simps [of n])
    then show ?thesis by blast
  next
    case False
    from "1.IH" [OF False] obtain d cs where "print_nat (n div 10) = digit_char d # cs" "d < 10" "d = 0 \<longleftrightarrow> n div 10 = 0"
      by auto
    moreover have "n div 10 \<noteq> 0" using False by auto
    ultimately have "print_nat n = digit_char d # (cs @ [digit_char (n mod 10)]) \<and> d < 10 \<and> (d = 0 \<longleftrightarrow> n = 0)"
      using False by (simp add: print_nat.simps [of n])
    then show ?thesis by blast
  qed
qed

lemma print_nat_length: "n < 10 ^ k \<Longrightarrow> 0 < k \<Longrightarrow> length (print_nat n) \<le> k"
proof (induction n arbitrary: k rule: print_nat.induct)
  case (1 n)
  show ?case
  proof (cases "n < 10")
    case True
    then show ?thesis using "1.prems" by (simp add: print_nat.simps [of n])
  next
    case False
    have "k \<noteq> 1" using False "1.prems" by auto
    then obtain j where k: "k = Suc j" "0 < j" using "1.prems"
      by (cases k) auto
    have "n div 10 < 10 ^ j" using "1.prems" k by (simp add: less_mult_imp_div_less)
    from "1.IH" [OF False this k(2)] show ?thesis
      using False k by (simp add: print_nat.simps [of n])
  qed
qed


lemma digit_char_facts:
  "d < 10 \<Longrightarrow> (digit_char d = CHR ''0'') = (d = 0)"
  "d < 10 \<Longrightarrow> digit_char d \<noteq> CHR ''-''"
  "d < 10 \<Longrightarrow> digit_char d \<noteq> CHR ''+''"
  "d < 10 \<Longrightarrow> \<not> isspace (digit_char d)"
  "d < 10 \<Longrightarrow> \<not> below32 (digit_char d)"
  "d < 10 \<Longrightarrow> digit_char d \<noteq> CHR 0x00"
  by (simp_all add: digit_char_def isspace_def below32_def
        of_char_eq_iff [where ?'a = nat, symmetric])


lemma digit_char_0: "digit_char 0 = CHR ''0''"
  by (simp add: digit_char_def of_char_eq_iff [where ?'a = nat, symmetric])

lemma scan_digits_stop:
  "rest = [] \<or> hd rest = CHR '','' \<Longrightarrow> scan_digits b acc rest = (acc, rest)"
  by (cases rest) (auto simp: digit_of_def Let_def)

lemma scan_nat_print_nat:
  assumes "rest = [] \<or> hd rest = CHR '',''"
  shows "(if hex_prefix (print_nat n @ rest) then scan_base 16 neg (drop 2 (print_nat n @ rest))
          else if print_nat n @ rest \<noteq> [] \<and> hd (print_nat n @ rest) = CHR ''0''
               then scan_base 8 neg (print_nat n @ rest)
          else scan_base 10 neg (print_nat n @ rest)) = Some (signed_val neg n, rest)"
proof -
  obtain d cs where p: "print_nat n = digit_char d # cs" "d < 10" "d = 0 \<longleftrightarrow> n = 0"
    using print_nat_hd [of n] by auto
  show ?thesis
  proof (cases "n = 0")
    case True
    then have p0: "print_nat n = [CHR ''0'']"
      by (simp add: print_nat.simps [of 0] digit_char_0)
    have "\<not> hex_prefix (CHR ''0'' # rest)"
      using assms by (cases rest) (auto simp: hex_prefix_def split: list.splits)
    moreover have "scan_base 8 neg (CHR ''0'' # rest) = Some (signed_val neg 0, rest)"
      using scan_digits_stop [OF assms, of 8 0]
      by (simp add: scan_base_def digit_of_def Let_def)
    ultimately show ?thesis using True p0 by simp
  next
    case False
    then have d: "digit_char d \<noteq> CHR ''0''" using p digit_char_facts(1) by simp
    have "\<not> hex_prefix (print_nat n @ rest)"
      using d p by (auto simp: hex_prefix_def split: list.splits)
    moreover have "scan_base 10 neg (print_nat n @ rest) = Some (signed_val neg n, rest)"
      using scan_digits_print_nat [of 0 n rest] scan_digits_stop [OF assms, of 10 n] p
      by (simp add: scan_base_def digit_of_digit_char)
    ultimately show ?thesis using d p by simp
  qed
qed

lemma scan_i_print_int:
  assumes "rest = [] \<or> hd rest = CHR '',''"
  shows "scan_i (print_int i @ rest) = Some (i, rest)"
proof -
  obtain d cs where p: "print_nat (nat \<bar>i\<bar>) = digit_char d # cs" "d < 10"
    using print_nat_hd [of "nat \<bar>i\<bar>"] by auto
  show ?thesis
  proof (cases "i < 0")
    case True
    then have "scan_sign (dropWhile isspace (print_int i @ rest)) = (True, print_nat (nat (- i)) @ rest)"
      by (simp add: print_int_def scan_sign_def isspace_def)
    then show ?thesis
      using scan_nat_print_nat [OF assms, of "nat (- i)" True] True
      by (simp add: scan_i_def signed_val_def)
  next
    case False
    then have "scan_sign (dropWhile isspace (print_int i @ rest)) = (False, print_nat (nat i) @ rest)"
      using p digit_char_facts [of d] by (simp add: print_int_def scan_sign_def)
    then show ?thesis
      using scan_nat_print_nat [OF assms, of "nat i" False] False
      by (simp add: scan_i_def signed_val_def)
  qed
qed

lemma scan_d_print_int:
  assumes "rest = [] \<or> hd rest = CHR '',''"
  shows "scan_d (print_int i @ rest) = Some (i, rest)"
proof -
  obtain d cs where p: "print_nat (nat \<bar>i\<bar>) = digit_char d # cs" "d < 10"
    using print_nat_hd [of "nat \<bar>i\<bar>"] by auto
  have base: "scan_base 10 neg (print_nat n @ rest) = Some (signed_val neg n, rest)" for neg n
  proof -
    obtain e es where q: "print_nat n = digit_char e # es" "e < 10"
      using print_nat_hd [of n] by auto
    show ?thesis
      using scan_digits_print_nat [of 0 n rest] scan_digits_stop [OF assms, of 10 n] q
      by (simp add: scan_base_def digit_of_digit_char)
  qed
  show ?thesis
  proof (cases "i < 0")
    case True
    then have "scan_sign (dropWhile isspace (print_int i @ rest)) = (True, print_nat (nat (- i)) @ rest)"
      by (simp add: print_int_def scan_sign_def isspace_def)
    then show ?thesis
      using base [of True "nat (- i)"] True by (simp add: scan_d_def signed_val_def)
  next
    case False
    then have "scan_sign (dropWhile isspace (print_int i @ rest)) = (False, print_nat (nat i) @ rest)"
      using p digit_char_facts [of d] by (simp add: print_int_def scan_sign_def)
    then show ?thesis
      using base [of False "nat i"] False by (simp add: scan_d_def signed_val_def)
  qed
qed

lemma sscanf_i_i_point_line: "sscanf_i_i (point_line q) = Some (X q, Y q)"
  using scan_i_print_int [of "CHR '','' # print_int (Y q)" "X q"] scan_i_print_int [of "[]" "Y q"]
  by (simp add: sscanf_i_i_def point_line_def)

lemma print_nat_chars: "c \<in> set (print_nat n) \<Longrightarrow> \<exists>d<10. c = digit_char d"
proof (induction n rule: print_nat.induct)
  case (1 n)
  show ?case
  proof (cases "n < 10")
    case True
    then show ?thesis using "1.prems" by (auto simp: print_nat.simps [of n])
  next
    case False
    then have "c \<in> set (print_nat (n div 10)) \<or> c = digit_char (n mod 10)"
      using "1.prems" by (auto simp: print_nat.simps [of n])
    then show ?thesis
    proof
      assume "c \<in> set (print_nat (n div 10))"
      then show ?thesis using "1.IH" [OF False] by blast
    next
      assume "c = digit_char (n mod 10)"
      moreover have "n mod 10 < 10" by simp
      ultimately show ?thesis by blast
    qed
  qed
qed

lemma print_int_chars: "c \<in> set (print_int i) \<Longrightarrow> \<not> below32 c"
proof -
  assume "c \<in> set (print_int i)"
  then have "c = CHR ''-'' \<or> c \<in> set (print_nat (nat (- i))) \<or> c \<in> set (print_nat (nat i))"
    by (auto simp: print_int_def split: if_splits)
  then show ?thesis
    using digit_char_facts(5) print_nat_chars by (auto simp: below32_def)
qed

lemma print_int_nonempty: "print_int i \<noteq> []"
  using print_nat_hd [of "nat i"] by (auto simp: print_int_def)

lemma print_int_length: "in_int64 i \<Longrightarrow> length (print_int i) \<le> 20"
proof -
  assume a: "in_int64 i"
  have "nat \<bar>i\<bar> < 10 ^ 19" using a unfolding in_int64_def by auto
  then have "length (print_nat (nat \<bar>i\<bar>)) \<le> 19" by (rule print_nat_length) simp
  then show ?thesis by (auto simp: print_int_def abs_if)
qed

lemma line_text_plain:
  assumes "l \<noteq> []" "\<forall>c\<in>set l. \<not> below32 c"
  shows "line_text l = l"
proof -
  have nul: "\<forall>c\<in>set l. c \<noteq> CHR 0x00" using assms(2) by (auto simp: below32_def)
  have "takeWhile (\<lambda>c. c \<noteq> CHR 0x00) (l @ [newline]) = l @ [newline]"
    using nul by (simp add: newline_def)
  moreover have "below32 newline" by (simp add: below32_def newline_def)
  moreover have "\<not> below32 (hd (rev l))" using assms by (simp add: hd_rev)
  then have "dropWhile below32 (rev l) = rev l" using assms(1) by (cases "rev l") auto
  ultimately show ?thesis by (simp add: line_text_def chomp_def)
qed

lemma line_text_print_int: "line_text (print_int i) = print_int i"
  using print_int_nonempty print_int_chars by (intro line_text_plain) auto

lemma point_line_facts:
  "line_text (point_line q) = point_line q"
  "in_int64 (X q) \<Longrightarrow> in_int64 (Y q) \<Longrightarrow> length (point_line q) < 999"
proof -
  have "\<forall>c\<in>set (point_line q). \<not> below32 c"
    using print_int_chars by (auto simp: point_line_def below32_def)
  then show "line_text (point_line q) = point_line q"
    using print_int_nonempty by (intro line_text_plain) (auto simp: point_line_def)
  show "in_int64 (X q) \<Longrightarrow> in_int64 (Y q) \<Longrightarrow> length (point_line q) < 999"
    using print_int_length [of "X q"] print_int_length [of "Y q"] by (simp add: point_line_def)
qed

lemma fgets_short: "length l < 999 \<Longrightarrow> chomp (snd (fgets (l # rest) tmp)) = line_text l \<and> fst (fgets (l # rest) tmp) = rest"
  by (simp add: fgets_def line_text_def)

lemma grow_box_keeps [simp]:
  "pointcount (grow_box f ax ay p) = pointcount p"
  "points (grow_box f ax ay p) = points p"
  "nenner (grow_box f ax ay p) = nenner p"
  by (simp_all add: grow_box_def)

lemma load_points_lines:
  "pointcount p = int (length (points p)) \<Longrightarrow> 0 \<le> i \<Longrightarrow>
   length qs = nat (pointcount p - i) \<Longrightarrow> i \<le> pointcount p \<Longrightarrow>
   \<forall>q\<in>set qs. in_int64 (X q) \<and> in_int64 (Y q) \<Longrightarrow>
   \<exists>p'. load_points i p (map point_line qs @ rest) tmp = Inr p' \<and> pointcount p' = pointcount p \<and>
        points p' = take (nat i) (points p) @ qs \<and> nenner p' = nenner p"
proof (induction qs arbitrary: i p tmp)
  case Nil
  then show ?case by (subst load_points.simps) simp
next
  case (Cons q qs)
  have i: "i < pointcount p" "nat i < length (points p)" "i < int (length (points p))"
    using Cons.prems by auto
  let ?p2 = "grow_box (i = 0) (X q) (Y q) (p\<lparr>points := (points p)[nat i := \<lparr>X = X q, Y = Y q\<rparr>]\<rparr>)"
  have short: "length (point_line q) < 999" using Cons.prems point_line_facts(2) by simp
  have step: "load_points i p (map point_line (q # qs) @ rest) tmp
      = load_points (i + 1) ?p2 (map point_line qs @ rest) (point_line q)"
    using i Cons.prems(2) fgets_short [OF short, of "map point_line qs @ rest" tmp]
    by (simp add: load_points.simps [of i p] split_beta point_line_facts(1) sscanf_i_i_point_line)
  have "\<exists>p'. load_points (i + 1) ?p2 (map point_line qs @ rest) (point_line q) = Inr p' \<and>
      pointcount p' = pointcount ?p2 \<and> points p' = take (nat (i + 1)) (points ?p2) @ qs \<and> nenner p' = nenner ?p2"
    using Cons.prems by (intro Cons.IH) auto
  then obtain p' where p': "load_points (i + 1) ?p2 (map point_line qs @ rest) (point_line q) = Inr p'"
      "pointcount p' = pointcount p" "points p' = take (nat (i + 1)) (points ?p2) @ qs" "nenner p' = nenner p"
    by auto
  have "take (nat (i + 1)) ((points p)[nat i := q]) = take (nat i) (points p) @ [q]"
    using i Cons.prems(2) by (simp add: nat_add_distrib take_Suc_conv_app_nth)
  moreover have eq: "\<lparr>X = X q, Y = Y q\<rparr> = q" by simp
  ultimately have "points p' = take (nat i) (points p) @ q # qs" using p'(3) unfolding eq by simp
  then show ?case using step p' by simp
qed

lemma save_points_lines:
  "0 \<le> i \<Longrightarrow> pointcount p \<le> int (length (points p)) \<Longrightarrow>
   save_points i p out = Inr (out @ map point_line (drop (nat i) (take (nat (pointcount p)) (points p))))"
proof (induction i p out rule: save_points.induct)
  case (1 i p out)
  show ?case
  proof (cases "i < pointcount p")
    case True
    then have r: "nat i < length (take (nat (pointcount p)) (points p))" using "1.prems" by auto
    have "save_points i p out = save_points (i + 1) p (out @ [point_line (points p ! nat i)])"
      using True "1.prems" by (simp add: save_points.simps [of i p])
    also have "\<dots> = Inr ((out @ [point_line (points p ! nat i)]) @
        map point_line (drop (nat (i + 1)) (take (nat (pointcount p)) (points p))))"
      using True "1.prems" by (intro "1.IH") auto
    also have "drop (nat i) (take (nat (pointcount p)) (points p))
        = points p ! nat i # drop (nat (i + 1)) (take (nat (pointcount p)) (points p))"
      using Cons_nth_drop_Suc [OF r] True "1.prems" by (simp add: nat_add_distrib)
    ultimately show ?thesis by simp
  next
    case False
    then show ?thesis using "1.prems" by (simp add: save_points.simps [of i p])
  qed
qed

section \<open>Loading and saving\<close>

lemma load_unfold:
  assumes "length l1 < 999" "length l2 < 999" "length l3 < 999"
  shows "load R0 R1 this tmp0 (Some (l1 # l2 # l3 # rest)) =
     (case sscanf_i (line_text l3) of
        None \<Rightarrow> Inl Exit99
      | Some a \<Rightarrow>
          (case setlen (load_header R0 R1 this l1 l2) a of
             Inl e \<Rightarrow> Inl e
           | Inr p3 \<Rightarrow>
               (case load_points 0 (p3\<lparr>pointcount := a\<rparr>) rest (line_text l3) of
                  Inl e \<Rightarrow> Inl e
                | Inr p4 \<Rightarrow> Inr (1, p4))))"
  using assms
  by (simp add: load_def load_header_def fgets_def line_text_def [symmetric] Let_def
        cong: option.case_cong sum.case_cong)

lemma load_header_nenner:
  "nenner (load_header R0 R1 this l1 l2) =
     (case sscanf_I64d (line_text l1) of None \<Rightarrow> 2 ^ 25 | Some n \<Rightarrow> n)"
  by (simp add: load_header_def Let_def split: option.splits prod.splits)

text \<open>
  Claim C9. A polygon with \<open>pointcount\<close> vertices in its buffer and all numbers in
  range is written by \<^verbatim>\<open>Polygon::save\<close>; \<^verbatim>\<open>Polygon::load\<close> of the written lines, into
  any polygon object and under any range globals, returns 1 and holds the same
  \<open>pointcount\<close>, the same vertices in the same order and the same denominator.
\<close>

theorem save_load_roundtrip:
  assumes pc: "0 \<le> pointcount p" "pointcount p \<le> int (length (points p))"
    and rng: "in_int64 (nenner p)" "in_int64 (pointcount p)" "in_int64 R0" "in_int64 R1"
    and pts: "\<forall>q\<in>set (take (nat (pointcount p)) (points p)). in_int64 (X q) \<and> in_int64 (Y q)"
  shows "\<exists>file q. save R0 R1 p = Inr file \<and> load R0' R1' this tmp0 (Some file) = Inr (1, q) \<and>
           pointcount q = pointcount p \<and> points q = take (nat (pointcount p)) (points p) \<and>
           nenner q = nenner p"
proof -
  let ?qs = "take (nat (pointcount p)) (points p)"
  let ?l1 = "print_int (nenner p)"
  let ?l2 = "print_int R0 @ '','' @ print_int R1 @ '','' @ print_int R0 @ '','' @ print_int R1"
  let ?l3 = "print_int (pointcount p)"
  let ?file = "?l1 # ?l2 # ?l3 # (map point_line ?qs @ [''.''])"
  have sv: "save R0 R1 p = Inr ?file"
    using save_points_lines [of 0 p "[?l1, ?l2, ?l3]"] pc by (simp add: save_def)
  have len: "length ?l1 < 999" "length ?l2 < 999" "length ?l3 < 999"
    using print_int_length [OF rng(1)] print_int_length [OF rng(2)]
      print_int_length [OF rng(3)] print_int_length [OF rng(4)] by simp_all
  let ?h = "load_header R0' R1' this ?l1 ?l2"
  have n: "sscanf_I64d (line_text ?l1) = Some (nenner p)"
    using scan_d_print_int [of "[]" "nenner p"] by (simp add: sscanf_I64d_def line_text_print_int)
  have a: "sscanf_i (line_text ?l3) = Some (pointcount p)"
    using scan_i_print_int [of "[]" "pointcount p"] by (simp add: sscanf_i_def line_text_print_int)
  let ?p3 = "?h\<lparr>memused := pointcount p,
                 points := replicate (nat (pointcount p)) \<lparr>X = 0, Y = 0\<rparr>,
                 pointcount := 0, useprepare := 0,
                 yprepare := replicate (nat (pointcount p)) 0\<rparr>"
  have sl: "setlen ?h (pointcount p) = Inr ?p3" using pc by (simp add: setlen_def)
  have "\<exists>p'. load_points 0 (?p3\<lparr>pointcount := pointcount p\<rparr>) (map point_line ?qs @ [''.'']) (line_text ?l3) = Inr p' \<and>
      pointcount p' = pointcount (?p3\<lparr>pointcount := pointcount p\<rparr>) \<and>
      points p' = take (nat 0) (points (?p3\<lparr>pointcount := pointcount p\<rparr>)) @ ?qs \<and>
      nenner p' = nenner (?p3\<lparr>pointcount := pointcount p\<rparr>)"
    using pc pts by (intro load_points_lines) auto
  then obtain p' where p': "load_points 0 (?p3\<lparr>pointcount := pointcount p\<rparr>) (map point_line ?qs @ [''.'']) (line_text ?l3) = Inr p'"
    "pointcount p' = pointcount p" "points p' = ?qs" "nenner p' = nenner ?h"
    by auto
  have "load R0' R1' this tmp0 (Some ?file) = Inr (1, p')"
    using load_unfold [OF len, of R0' R1' this tmp0 "map point_line ?qs @ [''.'']"] a sl p'(1)
    by simp
  moreover have "nenner p' = nenner p" using p'(4) n by (simp add: load_header_nenner)
  ultimately show ?thesis using sv p' by blast
qed

lemma load_points_bad:
  "pointcount p = int (length (points p)) \<Longrightarrow> 0 \<le> i \<Longrightarrow> \<forall>l\<in>set pls. length l < 999 \<Longrightarrow>
   k < length pls \<Longrightarrow> i + int k < pointcount p \<Longrightarrow> sscanf_i_i (line_text (pls ! k)) = None \<Longrightarrow>
   load_points i p pls tmp = Inl Exit99"
proof (induction k arbitrary: i p pls tmp)
  case 0
  then obtain l rest where pls: "pls = l # rest" by (cases pls) auto
  then have "length l < 999" "sscanf_i_i (line_text l) = None" using 0 by auto
  then show ?case
    using 0 pls fgets_short [of l rest tmp]
    by (simp add: load_points.simps [of i p] split_beta)
next
  case (Suc k)
  then obtain l rest where pls: "pls = l # rest" by (cases pls) auto
  have l: "length l < 999" using Suc.prems pls by auto
  have i: "i < pointcount p" "i < int (length (points p))" using Suc.prems by auto
  show ?case
  proof (cases "sscanf_i_i (line_text l)")
    case None
    then show ?thesis
      using i pls fgets_short [OF l, of rest tmp]
      by (simp add: load_points.simps [of i p] split_beta)
  next
    case (Some axy)
    obtain ax ay where axy: "axy = (ax, ay)" by (cases axy)
    let ?p2 = "grow_box (i = 0) ax ay (p\<lparr>points := (points p)[nat i := \<lparr>X = ax, Y = ay\<rparr>]\<rparr>)"
    have "load_points i p pls tmp = load_points (i + 1) ?p2 rest (line_text l)"
      using i Suc.prems(2) pls Some axy fgets_short [OF l, of rest tmp]
      by (simp add: load_points.simps [of i p] split_beta)
    moreover have "load_points (i + 1) ?p2 rest (line_text l) = Inl Exit99"
      using Suc.prems pls by (intro Suc.IH) auto
    ultimately show ?thesis by simp
  qed
qed

text \<open>
  Claim C8, as amended. In a record whose first three lines and point lines are
  shorter than 999 characters, a point-count line that \<^verbatim>\<open>sscanf\<close> cannot read, or a
  point line among those the count announces that it cannot read, ends
  \<^verbatim>\<open>Polygon::load\<close> with \<^verbatim>\<open>exit(99)\<close>. (The denominator line and the range line are
  not checked this way: see the counterexample below.)
\<close>

theorem load_malformed_aborts:
  assumes short: "length l1 < 999" "length l2 < 999" "length l3 < 999" "\<forall>l\<in>set pls. length l < 999"
    and bad: "sscanf_i (line_text l3) = None \<or>
        (\<exists>a k. sscanf_i (line_text l3) = Some a \<and> k < nat a \<and> k < length pls \<and>
               sscanf_i_i (line_text (pls ! k)) = None)"
  shows "load R0 R1 this tmp0 (Some (l1 # l2 # l3 # pls)) = Inl Exit99"
  using bad
proof
  assume "sscanf_i (line_text l3) = None"
  then show ?thesis using load_unfold [OF short(1-3)] by simp
next
  assume "\<exists>a k. sscanf_i (line_text l3) = Some a \<and> k < nat a \<and> k < length pls \<and>
               sscanf_i_i (line_text (pls ! k)) = None"
  then obtain a k where ak: "sscanf_i (line_text l3) = Some a" "k < nat a" "k < length pls"
      "sscanf_i_i (line_text (pls ! k)) = None"
    by blast
  let ?h = "load_header R0 R1 this l1 l2"
  let ?p3 = "?h\<lparr>memused := a, points := replicate (nat a) \<lparr>X = 0, Y = 0\<rparr>,
                 pointcount := 0, useprepare := 0, yprepare := replicate (nat a) 0\<rparr>"
  have sl: "setlen ?h a = Inr ?p3" using ak(2) by (simp add: setlen_def)
  have "load_points 0 (?p3\<lparr>pointcount := a\<rparr>) pls (line_text l3) = Inl Exit99"
    using ak short(4) by (intro load_points_bad [where k = k]) auto
  then show ?thesis using load_unfold [OF short(1-3), of R0 R1 this tmp0 pls] ak(1) sl by simp
qed

theorem load_malformed_aborts_witness:
  "load (- 2) 2 (Polygon_new raw_polygon) [] (Some [''33554432'', ''-2,2,-2,2'', ''2'', ''3,4'', ''3;4'', ''.'']) = Inl Exit99"
proof -
  have "sscanf_i (line_text ''2'') = Some 2 \<and> (1::nat) < nat 2 \<and> 1 < length [''3,4'', ''3;4'', ''.''] \<and>
      sscanf_i_i (line_text ([''3,4'', ''3;4'', ''.''] ! 1)) = None"
    by code_simp
  then have "sscanf_i (line_text ''2'') = None \<or>
        (\<exists>a k. sscanf_i (line_text ''2'') = Some a \<and> k < nat a \<and> k < length [''3,4'', ''3;4'', ''.''] \<and>
               sscanf_i_i (line_text ([''3,4'', ''3;4'', ''.''] ! k)) = None)"
    by blast
  then show ?thesis
    by (intro load_malformed_aborts) simp_all
qed

text \<open>
  A record whose denominator line and range line cannot be read is loaded all the
  same: the denominator becomes \<open>2 ^ 25\<close> and the range the globals.
\<close>

theorem load_default_counterexample:
  "sscanf_I64d (line_text ''garbage'') = None \<and> sscanf_lf4 (line_text ''nonsense'') = None \<and>
   load (- 2) 2 (Polygon_new raw_polygon) [] (Some [''garbage'', ''nonsense'', ''1'', ''3,4'', ''.'']) =
     Inr (1, \<lparr>pointcount = 1, memused = 1, useprepare = 0, points = [\<lparr>X = 3, Y = 4\<rparr>],
               nenner = 33554432, cx0 = - 2, cx1 = 2, cy0 = - 2, cy1 = 2,
               xmin = 3, xmax = 3, ymin = 4, ymax = 4, yprepare = [0]\<rparr>)"
  by code_simp

theorem save_load_roundtrip_witness:
  "\<exists>file q. save (- 2) 2 (raw_polygon\<lparr>pointcount := 2, points := [\<lparr>X = 1, Y = - 2\<rparr>, \<lparr>X = 0, Y = 77\<rparr>, \<lparr>X = 5, Y = 5\<rparr>], nenner := 33554432\<rparr>) = Inr file \<and>
     load (- 2) 2 (Polygon_new raw_polygon) [] (Some file) = Inr (1, q) \<and>
     pointcount q = 2 \<and> points q = [\<lparr>X = 1, Y = - 2\<rparr>, \<lparr>X = 0, Y = 77\<rparr>] \<and> nenner q = 33554432"
  using save_load_roundtrip [of "raw_polygon\<lparr>pointcount := 2, points := [\<lparr>X = 1, Y = - 2\<rparr>, \<lparr>X = 0, Y = 77\<rparr>, \<lparr>X = 5, Y = 5\<rparr>], nenner := 33554432\<rparr>" "- 2" 2 "- 2" 2 "Polygon_new raw_polygon" "[]"]
  by (simp add: raw_polygon_def in_int64_def)

section \<open>The oracle for a set of polygons: properties\<close>

lemma returns_iff: "returns m \<longleftrightarrow> (\<exists>r. m = Some (Inr r))"
  by (auto simp: returns_def split: option.splits sum.splits)

lemma nbhd_dx_neg: "ic < 0 \<Longrightarrow> nbhd_dx p want px pyd dxs ic = Some (Inr ic)"
  by (cases dxs) auto

lemma nbhd_dx_total:
  "0 \<le> ic \<Longrightarrow> \<forall>dx\<in>set dxs. returns (point_in_polygonVH p (px + dx) pyd) \<Longrightarrow>
   nbhd_dx p want px pyd dxs ic =
     Some (Inr (if \<forall>dx\<in>set dxs. point_in_polygonVH p (px + dx) pyd = Some (Inr want)
                then ic + int (length dxs) else - 1))"
proof (induction dxs arbitrary: ic)
  case Nil
  then show ?case by simp
next
  case (Cons dx dxs)
  then obtain r where r: "point_in_polygonVH p (px + dx) pyd = Some (Inr r)"
    by (auto simp: returns_iff)
  show ?case
  proof (cases "r = want")
    case True
    then show ?thesis using Cons r by (simp add: algebra_simps)
  next
    case False
    then show ?thesis using Cons.prems r by (simp add: nbhd_dx_neg)
  qed
qed

lemma nbhd_dy_neg: "ic < 0 \<Longrightarrow> nbhd_dy p want px py dys ic = Some (Inr ic)"
  by (cases dys) auto

lemma nbhd_dy_total:
  "0 \<le> ic \<Longrightarrow> \<forall>dy\<in>set dys. \<forall>dx\<in>set [- mxy .. mxy]. returns (point_in_polygonVH p (px + dx) (py + dy)) \<Longrightarrow>
   nbhd_dy p want px py dys ic =
     Some (Inr (if \<forall>dy\<in>set dys. \<forall>dx\<in>set [- mxy .. mxy]. point_in_polygonVH p (px + dx) (py + dy) = Some (Inr want)
                then ic + int (length dys) * 5 else - 1))"
proof (induction dys arbitrary: ic)
  case Nil
  then show ?case by simp
next
  case (Cons dy dys)
  have len: "int (length [- mxy .. mxy]) = 5" by (simp add: mxy_def)
  have row: "nbhd_dx p want px (py + dy) [- mxy .. mxy] ic =
     Some (Inr (if \<forall>dx\<in>set [- mxy .. mxy]. point_in_polygonVH p (px + dx) (py + dy) = Some (Inr want)
                then ic + 5 else - 1))"
    using nbhd_dx_total [of ic "[- mxy .. mxy]" p px "py + dy" want] Cons.prems len by simp
  show ?case
  proof (cases "\<forall>dx\<in>set [- mxy .. mxy]. point_in_polygonVH p (px + dx) (py + dy) = Some (Inr want)")
    case True
    then show ?thesis using Cons row by (simp add: algebra_simps)
  next
    case False
    then show ?thesis using Cons.prems row by (auto simp: nbhd_dy_neg)
  qed
qed

lemma nbhd_count_total:
  "nbhd_returns p px py \<Longrightarrow>
   \<exists>ic. nbhd_count p want px py = Some (Inr ic) \<and> (ic = AREA \<longleftrightarrow> nbhd_all p want px py)"
  using nbhd_dy_total [of 0 "[- mxy .. mxy]" p px py want]
  by (auto simp: nbhd_count_def nbhd_returns_def nbhd_all_def AREA_def mxy_def)


lemma jsoracle_int_total:
  "\<forall>p\<in>set ps. answers cv ax ay p \<Longrightarrow>
   jsoracle_int cv ps ax ay = Some (Inr (\<exists>p\<in>set ps. classifies cv ax ay PIP_INTERIOR p))"
proof (induction ps)
  case Nil
  then show ?case by simp
next
  case (Cons p ps)
  obtain ic where "nbhd_count p PIP_INTERIOR (cv ax (nenner p)) (cv ay (nenner p)) = Some (Inr ic)"
      "ic = AREA \<longleftrightarrow> classifies cv ax ay PIP_INTERIOR p"
    using nbhd_count_total [of p "cv ax (nenner p)" "cv ay (nenner p)" PIP_INTERIOR] Cons.prems
    by (auto simp: answers_def classifies_def)
  then show ?case using Cons by auto
qed

lemma jsoracle_ext_filter:
  "jsoracle_ext cv ps ax ay e = jsoracle_ext cv (filter (\<lambda>p. pointcount p > 0) ps) ax ay e"
  by (induction ps arbitrary: e) (auto split: option.splits sum.splits)

lemma jsoracle_ext_none_counted:
  "\<forall>p\<in>set ps. \<not> pointcount p > 0 \<Longrightarrow> jsoracle_ext cv ps ax ay e = Some (Inr (False, e))"
  by (induction ps) auto

lemma jsoracle_ext_total:
  "\<forall>p\<in>set ps. answers cv ax ay p \<Longrightarrow>
   jsoracle_ext cv ps ax ay e =
     Some (Inr (if \<forall>p\<in>set ps. pointcount p > 0 \<longrightarrow> classifies cv ax ay PIP_EXTERIOR p
                then (False, if \<exists>p\<in>set ps. pointcount p > 0 then PIP_EXTERIOR else e)
                else (True, PIP_UNKNOWN)))"
proof (induction ps arbitrary: e)
  case Nil
  then show ?case by simp
next
  case (Cons p ps)
  obtain ic where ic: "nbhd_count p PIP_EXTERIOR (cv ax (nenner p)) (cv ay (nenner p)) = Some (Inr ic)"
      "ic = AREA \<longleftrightarrow> classifies cv ax ay PIP_EXTERIOR p"
    using nbhd_count_total [of p "cv ax (nenner p)" "cv ay (nenner p)" PIP_EXTERIOR] Cons.prems
    by (auto simp: answers_def classifies_def)
  have ih: "jsoracle_ext cv ps ax ay e' =
     Some (Inr (if \<forall>p\<in>set ps. pointcount p > 0 \<longrightarrow> classifies cv ax ay PIP_EXTERIOR p
                then (False, if \<exists>p\<in>set ps. pointcount p > 0 then PIP_EXTERIOR else e')
                else (True, PIP_UNKNOWN)))" for e'
    using Cons by simp
  show ?case
  proof (cases "pointcount p > 0")
    case True
    then show ?thesis using ic ih [of PIP_EXTERIOR] by auto
  next
    case False
    then show ?thesis using ih [of e] by auto
  qed
qed



lemma jsoracle_total:
  assumes "\<forall>p\<in>set intp \<union> set extp. answers cv ax ay p"
  shows "jsoracle cv intp extp ax ay =
     Some (Inr (if \<exists>p\<in>set intp. classifies cv ax ay PIP_INTERIOR p then PIP_INTERIOR
                else if (\<exists>p\<in>set extp. pointcount p > 0) \<and>
                        (\<forall>p\<in>set extp. pointcount p > 0 \<longrightarrow> classifies cv ax ay PIP_EXTERIOR p)
                then PIP_EXTERIOR else PIP_UNKNOWN))"
proof -
  define I where "I \<longleftrightarrow> (\<exists>p\<in>set intp. classifies cv ax ay PIP_INTERIOR p)"
  define A where "A \<longleftrightarrow> (\<forall>p\<in>set extp. pointcount p > 0 \<longrightarrow> classifies cv ax ay PIP_EXTERIOR p)"
  define E where "E \<longleftrightarrow> (\<exists>p\<in>set extp. pointcount p > 0)"
  have i: "jsoracle_int cv intp ax ay = Some (Inr I)"
    unfolding I_def using assms by (intro jsoracle_int_total) auto
  have e: "jsoracle_ext cv extp ax ay PIP_UNKNOWN =
     Some (Inr (if A then (False, if E then PIP_EXTERIOR else PIP_UNKNOWN) else (True, PIP_UNKNOWN)))"
    unfolding A_def E_def using assms by (intro jsoracle_ext_total) auto
  have len: "E \<Longrightarrow> 0 < length extp" unfolding E_def by (cases extp) auto
  have "jsoracle cv intp extp ax ay =
     Some (Inr (if I then PIP_INTERIOR else if E \<and> A then PIP_EXTERIOR else PIP_UNKNOWN))"
    unfolding jsoracle_def i e using len by (cases I; cases A; cases E) simp_all
  then show ?thesis unfolding I_def A_def E_def .
qed


text \<open>
  Claim C10. The exterior polygons without a vertex do not influence \<^verbatim>\<open>jsoracle\<close>: the
  result is the one for the list without them. If every exterior polygon is empty the
  result is not exterior, and undetermined when no interior polygon is loaded. When all
  queries return, the result is exterior exactly when no interior polygon matches,
  some exterior polygon has a vertex, and every exterior polygon that has one
  classifies the whole block as exterior.
\<close>

theorem jsoracle_skips_empty_exterior:
  "jsoracle cv intp extp ax ay = jsoracle cv intp (filter (\<lambda>p. pointcount p > 0) extp) ax ay \<and>
   ((\<forall>p\<in>set extp. \<not> pointcount p > 0) \<longrightarrow>
      jsoracle cv intp extp ax ay \<noteq> Some (Inr PIP_EXTERIOR) \<and>
      jsoracle cv [] extp ax ay = Some (Inr PIP_UNKNOWN)) \<and>
   ((\<forall>p\<in>set intp \<union> set extp. answers cv ax ay p) \<longrightarrow>
      (jsoracle cv intp extp ax ay = Some (Inr PIP_EXTERIOR) \<longleftrightarrow>
         \<not> (\<exists>p\<in>set intp. classifies cv ax ay PIP_INTERIOR p) \<and>
         (\<exists>p\<in>set extp. pointcount p > 0) \<and>
         (\<forall>p\<in>set extp. pointcount p > 0 \<longrightarrow> classifies cv ax ay PIP_EXTERIOR p)))"
proof (intro conjI impI)
  let ?f = "filter (\<lambda>p. pointcount p > 0) extp"
  have flt: "jsoracle_ext cv extp ax ay PIP_UNKNOWN = jsoracle_ext cv ?f ax ay PIP_UNKNOWN"
    by (rule jsoracle_ext_filter)
  show "jsoracle cv intp extp ax ay = jsoracle cv intp ?f ax ay"
  proof (cases "?f = []")
    case True
    then have "jsoracle_ext cv extp ax ay PIP_UNKNOWN = Some (Inr (False, PIP_UNKNOWN))"
      using flt by simp
    then show ?thesis using True
      by (simp add: jsoracle_def cong: option.case_cong sum.case_cong bool.case_cong)
  next
    case False
    then have "extp \<noteq> []" by auto
    then show ?thesis using False flt
      by (simp add: jsoracle_def cong: option.case_cong sum.case_cong bool.case_cong)
  qed
next
  assume a: "\<forall>p\<in>set extp. \<not> pointcount p > 0"
  then have e: "jsoracle_ext cv extp ax ay PIP_UNKNOWN = Some (Inr (False, PIP_UNKNOWN))"
    by (rule jsoracle_ext_none_counted)
  show "jsoracle cv intp extp ax ay \<noteq> Some (Inr PIP_EXTERIOR)"
    unfolding jsoracle_def e by (simp split: option.split sum.split bool.split)
  show "jsoracle cv [] extp ax ay = Some (Inr PIP_UNKNOWN)"
    using e by (simp add: jsoracle_def)
next
  assume t: "\<forall>p\<in>set intp \<union> set extp. answers cv ax ay p"
  define I where "I \<longleftrightarrow> (\<exists>p\<in>set intp. classifies cv ax ay PIP_INTERIOR p)"
  define A where "A \<longleftrightarrow> (\<forall>p\<in>set extp. pointcount p > 0 \<longrightarrow> classifies cv ax ay PIP_EXTERIOR p)"
  define E where "E \<longleftrightarrow> (\<exists>p\<in>set extp. pointcount p > 0)"
  have js: "jsoracle cv intp extp ax ay =
     Some (Inr (if I then PIP_INTERIOR else if E \<and> A then PIP_EXTERIOR else PIP_UNKNOWN))"
    unfolding I_def A_def E_def using t by (rule jsoracle_total)
  have "jsoracle cv intp extp ax ay = Some (Inr PIP_EXTERIOR) \<longleftrightarrow> \<not> I \<and> E \<and> A"
    unfolding js by (cases I; cases A; cases E) simp_all
  then show "jsoracle cv intp extp ax ay = Some (Inr PIP_EXTERIOR) \<longleftrightarrow>
         \<not> (\<exists>p\<in>set intp. classifies cv ax ay PIP_INTERIOR p) \<and>
         (\<exists>p\<in>set extp. pointcount p > 0) \<and>
         (\<forall>p\<in>set extp. pointcount p > 0 \<longrightarrow> classifies cv ax ay PIP_EXTERIOR p)"
    unfolding I_def A_def E_def .
qed




theorem jsoracle_skips_empty_exterior_witness:
  "jsoracle to_units [square_example] [Polygon_new raw_polygon] 150 50 \<noteq> Some (Inr PIP_EXTERIOR) \<and>
   jsoracle to_units [] [Polygon_new raw_polygon] 150 50 = Some (Inr PIP_UNKNOWN)"
proof -
  have h: "\<forall>p\<in>set [Polygon_new raw_polygon]. \<not> pointcount p > 0"
    by (simp add: Polygon_new_def raw_polygon_def)
  show ?thesis
    using jsoracle_skips_empty_exterior [of to_units "[square_example]" "[Polygon_new raw_polygon]" 150 50] h
    by blast
qed

section \<open>The point-in-polygon test on a square\<close>

lemma pip_loop_five:
  assumes "pointcount apg = 5" "useprepare apg \<le> 0"
  shows "pip_loop apg ax ay i ev =
      (if i < 4 then (case pip_edge apg ax ay (i + 1) ev of
                        Inl e \<Rightarrow> Some (Inl e)
                      | Inr (Return r) \<Rightarrow> Some (Inr r)
                      | Inr (Continue ev2) \<Rightarrow> pip_loop apg ax ay (i + 1) ev2)
       else Some (Inr (pip_final ev)))"
  using assms by (subst pip_loop.simps) simp

lemmas pip_edge_simps = pip_edge_def rd_def bindE_def minimumI_def maximumI_def through_def Let_def

lemma rect_H:
  assumes pts: "points apg = [\<lparr>X = x0, Y = y0\<rparr>, \<lparr>X = x1, Y = y0\<rparr>, \<lparr>X = x1, Y = y1\<rparr>, \<lparr>X = x0, Y = y1\<rparr>, \<lparr>X = x0, Y = y0\<rparr>]"
    and pc: "pointcount apg = 5" "useprepare apg \<le> 0" and ne: "x0 \<noteq> x1" "y0 \<noteq> y1"
  shows "pip_loop apg ax ay 0 1 = Some (Inr (
     if min x0 x1 < ax \<and> ax < max x0 x1 \<and> min y0 y1 < ay \<and> ay < max y0 y1 then PIP_INTERIOR
     else if min x0 x1 \<le> ax \<and> ax \<le> max x0 x1 \<and> min y0 y1 \<le> ay \<and> ay \<le> max y0 y1 then PIP_BOUNDARY
     else PIP_EXTERIOR))"
proof -
  have e1: "pip_edge apg ax ay 1 ev = Inr (if ay = y0 \<and> min x0 x1 \<le> ax \<and> ax \<le> max x0 x1 then Return PIP_BOUNDARY else Continue ev)" for ax ay ev
    using pts pc ne by (simp add: pip_edge_simps)
  have e2: "pip_edge apg ax ay 2 ev = Inr (if ax = x1 \<and> min y0 y1 \<le> ay \<and> ay \<le> max y0 y1 then Return PIP_BOUNDARY
       else if ax < x1 \<and> min y0 y1 < ay \<and> ay < max y0 y1 then Continue (1 - ev) else Continue ev)" for ax ay ev
    using pts pc ne by (simp add: pip_edge_simps)
  have e3: "pip_edge apg ax ay 3 ev = Inr (if ay = y1 \<and> min x0 x1 \<le> ax \<and> ax \<le> max x0 x1 then Return PIP_BOUNDARY else Continue ev)" for ax ay ev
    using pts pc ne by (simp add: pip_edge_simps)
  have e4: "pip_edge apg ax ay 4 ev = Inr (if ax = x0 \<and> min y0 y1 \<le> ay \<and> ay \<le> max y0 y1 then Return PIP_BOUNDARY
       else if ax < x0 \<and> min y0 y1 < ay \<and> ay < max y0 y1 then Continue (1 - ev) else Continue ev)" for ax ay ev
    using pts pc ne by (simp add: pip_edge_simps)
  note step = pip_loop_five [OF pc]
  note steps = step [of _ _ 0] step [of _ _ 1] step [of _ _ 2] step [of _ _ 3] step [of _ _ 4]
  consider (a) "x0 < x1" "y0 < y1" | (b) "x0 < x1" "y1 < y0" | (c) "x1 < x0" "y0 < y1" | (d) "x1 < x0" "y1 < y0"
    using ne by linarith
  then show ?thesis
  proof cases
    case a
    then show ?thesis by (simp add: steps e1 e2 e3 e4 pip_final_def; linarith)
  next
    case b
    then show ?thesis by (simp add: steps e1 e2 e3 e4 pip_final_def; linarith)
  next
    case c
    then show ?thesis by (simp add: steps e1 e2 e3 e4 pip_final_def; linarith)
  next
    case d
    then show ?thesis by (simp add: steps e1 e2 e3 e4 pip_final_def; linarith)
  qed
qed

lemma rect_V:
  assumes pts: "points apg = [\<lparr>X = x0, Y = y0\<rparr>, \<lparr>X = x0, Y = y1\<rparr>, \<lparr>X = x1, Y = y1\<rparr>, \<lparr>X = x1, Y = y0\<rparr>, \<lparr>X = x0, Y = y0\<rparr>]"
    and pc: "pointcount apg = 5" "useprepare apg \<le> 0" and ne: "x0 \<noteq> x1" "y0 \<noteq> y1"
  shows "pip_loop apg ax ay 0 1 = Some (Inr (
     if min x0 x1 < ax \<and> ax < max x0 x1 \<and> min y0 y1 < ay \<and> ay < max y0 y1 then PIP_INTERIOR
     else if min x0 x1 \<le> ax \<and> ax \<le> max x0 x1 \<and> min y0 y1 \<le> ay \<and> ay \<le> max y0 y1 then PIP_BOUNDARY
     else PIP_EXTERIOR))"
proof -
  have e1: "pip_edge apg ax ay 1 ev = Inr (if ax = x0 \<and> min y0 y1 \<le> ay \<and> ay \<le> max y0 y1 then Return PIP_BOUNDARY
       else if ax < x0 \<and> min y0 y1 < ay \<and> ay < max y0 y1 then Continue (1 - ev) else Continue ev)" for ax ay ev
    using pts pc ne by (simp add: pip_edge_simps)
  have e2: "pip_edge apg ax ay 2 ev = Inr (if ay = y1 \<and> min x0 x1 \<le> ax \<and> ax \<le> max x0 x1 then Return PIP_BOUNDARY else Continue ev)" for ax ay ev
    using pts pc ne by (simp add: pip_edge_simps)
  have e3: "pip_edge apg ax ay 3 ev = Inr (if ax = x1 \<and> min y0 y1 \<le> ay \<and> ay \<le> max y0 y1 then Return PIP_BOUNDARY
       else if ax < x1 \<and> min y0 y1 < ay \<and> ay < max y0 y1 then Continue (1 - ev) else Continue ev)" for ax ay ev
    using pts pc ne by (simp add: pip_edge_simps)
  have e4: "pip_edge apg ax ay 4 ev = Inr (if ay = y0 \<and> min x0 x1 \<le> ax \<and> ax \<le> max x0 x1 then Return PIP_BOUNDARY else Continue ev)" for ax ay ev
    using pts pc ne by (simp add: pip_edge_simps)
  note step = pip_loop_five [OF pc]
  note steps = step [of _ _ 0] step [of _ _ 1] step [of _ _ 2] step [of _ _ 3] step [of _ _ 4]
  consider (a) "x0 < x1" "y0 < y1" | (b) "x0 < x1" "y1 < y0" | (c) "x1 < x0" "y0 < y1" | (d) "x1 < x0" "y1 < y0"
    using ne by linarith
  then show ?thesis
  proof cases
    case a
    then show ?thesis by (simp add: steps e1 e2 e3 e4 pip_final_def; linarith)
  next
    case b
    then show ?thesis by (simp add: steps e1 e2 e3 e4 pip_final_def; linarith)
  next
    case c
    then show ?thesis by (simp add: steps e1 e2 e3 e4 pip_final_def; linarith)
  next
    case d
    then show ?thesis by (simp add: steps e1 e2 e3 e4 pip_final_def; linarith)
  qed
qed


lemma box_position:
  "(if min (X a) (X c) < ax \<and> ax < max (X a) (X c) \<and> min (Y a) (Y c) < ay \<and> ay < max (Y a) (Y c)
    then PIP_INTERIOR
    else if min (X a) (X c) \<le> ax \<and> ax \<le> max (X a) (X c) \<and> min (Y a) (Y c) \<le> ay \<and> ay \<le> max (Y a) (Y c)
    then PIP_BOUNDARY
    else PIP_EXTERIOR) =
   (if strictly_inside a c ax ay then PIP_INTERIOR
    else if on_an_edge a c ax ay then PIP_BOUNDARY
    else PIP_EXTERIOR)"
proof -
  have "on_an_edge a c ax ay \<longleftrightarrow>
      min (X a) (X c) \<le> ax \<and> ax \<le> max (X a) (X c) \<and> min (Y a) (Y c) \<le> ay \<and> ay \<le> max (Y a) (Y c) \<and>
      \<not> strictly_inside a c ax ay"
    unfolding strictly_inside_def on_an_edge_def by (cases "X a \<le> X c"; cases "Y a \<le> Y c") auto
  then show ?thesis unfolding strictly_inside_def by simp
qed

lemma grow_box_in_box:
  "in_box (grow_box f ax ay p) \<lparr>X = ax, Y = ay\<rparr>"
  "\<not> f \<Longrightarrow> in_box p q \<Longrightarrow> in_box (grow_box f ax ay p) q"
  by (auto simp: in_box_def grow_box_def)

lemma in_box_points_update [simp]: "in_box (p\<lparr>points := ps\<rparr>) q = in_box p q"
  by (simp add: in_box_def)

lemma load_points_box:
  "load_points i p ls tmp = Inr p' \<Longrightarrow> 0 \<le> i \<Longrightarrow>
   list_all (in_box p) (take (nat i) (points p)) \<Longrightarrow>
   list_all (in_box p') (take (nat (pointcount p')) (points p'))"
proof (induction i p ls tmp rule: load_points.induct)
  case (1 i p ls tmp)
  show ?case
  proof (cases "i < pointcount p")
    case False
    then have "p' = p" using "1.prems"(1) by (simp add: load_points.simps [of i p])
    moreover have "nat (pointcount p) \<le> nat i" using False by simp
    ultimately show ?thesis
      using "1.prems"(3) by (auto simp: list_all_iff dest: in_set_takeD set_take_subset_set_take [THEN subsetD])
  next
    case True
    obtain ls' tmp' where fg: "fgets ls tmp = (ls', tmp')" by (cases "fgets ls tmp")
    from "1.prems"(1) True fg obtain ax ay where sc: "sscanf_i_i (chomp tmp') = Some (ax, ay)"
      and rng: "i < int (length (points p))"
      by (auto simp: load_points.simps [of i p] split: option.splits if_splits)
    let ?p2 = "grow_box (i = 0) ax ay (p\<lparr>points := (points p)[nat i := \<lparr>X = ax, Y = ay\<rparr>]\<rparr>)"
    have rec: "load_points (i + 1) ?p2 ls' (chomp tmp') = Inr p'"
      using "1.prems"(1,2) True fg sc rng by (simp add: load_points.simps [of i p])
    have tk: "take (nat (i + 1)) (points ?p2) = take (nat i) (points p) @ [\<lparr>X = ax, Y = ay\<rparr>]"
      using rng "1.prems"(2) by (simp add: nat_add_distrib take_Suc_conv_app_nth)
    have old: "list_all (in_box ?p2) (take (nat i) (points p))"
    proof (cases "i = 0")
      case True
      then show ?thesis by simp
    next
      case False
      then show ?thesis
        using "1.prems"(3) grow_box_in_box(2) [of "i = 0"] by (auto simp: list_all_iff)
    qed
    have "list_all (in_box ?p2) (take (nat (i + 1)) (points ?p2))"
      unfolding tk using old grow_box_in_box(1) by simp
    moreover have "0 \<le> i \<and> i < int (length (points p))" "0 \<le> i + 1"
      using rng "1.prems"(2) by simp_all
    ultimately show ?thesis
      using "1.IH" [OF True fg [symmetric] sc refl _ rec] by blast
  qed
qed

lemma load_box_covers: "load R0 R1 this tmp0 file = Inr (1, p) \<Longrightarrow> box_covers p"
proof -
  assume l: "load R0 R1 this tmp0 file = Inr (1, p)"
  then obtain q ls t where "load_points 0 q ls t = Inr p"
    by (auto simp: load_def Let_def split: option.splits sum.splits prod.splits)
  from load_points_box [OF this] have "list_all (in_box p) (take (nat (pointcount p)) (points p))"
    by simp
  then show ?thesis by (simp add: box_covers_def in_box_def [abs_def])
qed

lemma square_unprepared:
  assumes sq: "is_square (points apg)" and pc: "pointcount apg = 5" "useprepare apg \<le> 0"
    and box: "box_covers apg"
  shows "point_in_polygonVH apg ax ay =
     Some (Inr (if strictly_inside (points apg ! 0) (points apg ! 2) ax ay then PIP_INTERIOR
                else if on_an_edge (points apg ! 0) (points apg ! 2) ax ay then PIP_BOUNDARY
                else PIP_EXTERIOR))"
proof -
  obtain a b c d where pts: "points apg = [a, b, c, d, a]"
    and ne: "X c \<noteq> X a" "\<bar>X c - X a\<bar> = \<bar>Y c - Y a\<bar>"
    and ori: "(Y b = Y a \<and> X b = X c \<and> Y d = Y c \<and> X d = X a) \<or>
              (X b = X a \<and> Y b = Y c \<and> X d = X c \<and> Y d = Y a)"
    using sq by (auto simp: is_square_def split: list.splits)
  have ney: "Y c \<noteq> Y a" using ne by auto
  have eta: "q = \<lparr>X = X q, Y = Y q\<rparr>" for q :: PolygonPoint by simp
  let ?r = "if strictly_inside a c ax ay then PIP_INTERIOR
            else if on_an_edge a c ax ay then PIP_BOUNDARY else PIP_EXTERIOR"
  have loop: "pip_loop apg ax ay 0 1 = Some (Inr ?r)"
    using ori
  proof
    assume h: "Y b = Y a \<and> X b = X c \<and> Y d = Y c \<and> X d = X a"
    have "points apg = [\<lparr>X = X a, Y = Y a\<rparr>, \<lparr>X = X c, Y = Y a\<rparr>, \<lparr>X = X c, Y = Y c\<rparr>,
        \<lparr>X = X a, Y = Y c\<rparr>, \<lparr>X = X a, Y = Y a\<rparr>]"
      using pts h eta [of a] eta [of b] eta [of c] eta [of d] by simp
    from rect_H [OF this pc] ne(1) ney show ?thesis
      by (simp add: box_position [symmetric])
  next
    assume h: "X b = X a \<and> Y b = Y c \<and> X d = X c \<and> Y d = Y a"
    have "points apg = [\<lparr>X = X a, Y = Y a\<rparr>, \<lparr>X = X a, Y = Y c\<rparr>, \<lparr>X = X c, Y = Y c\<rparr>,
        \<lparr>X = X c, Y = Y a\<rparr>, \<lparr>X = X a, Y = Y a\<rparr>]"
      using pts h eta [of a] eta [of b] eta [of c] eta [of d] by simp
    from rect_V [OF this pc] ne(1) ney show ?thesis
      by (simp add: box_position [symmetric])
  qed
  have cover: "xmin apg \<le> X a" "X a \<le> xmax apg" "ymin apg \<le> Y a" "Y a \<le> ymax apg"
      "xmin apg \<le> X c" "X c \<le> xmax apg" "ymin apg \<le> Y c" "Y c \<le> ymax apg"
    using box pts pc by (simp_all add: box_covers_def)
  show ?thesis
  proof (cases "ax < xmin apg \<or> ax > xmax apg \<or> ay < ymin apg \<or> ay > ymax apg")
    case True
    then have "\<not> strictly_inside a c ax ay" "\<not> on_an_edge a c ax ay"
      using cover unfolding strictly_inside_def on_an_edge_def by auto
    then show ?thesis using True pts by (simp add: point_in_polygonVH_def)
  next
    case False
    then show ?thesis using loop pts by (simp add: point_in_polygonVH_def)
  qed
qed



section \<open>The jump table\<close>


text \<open>The unprepared loop visits every edge.\<close>

lemma pip_loop_unprepared:
  assumes "useprepare p \<le> 0" "0 \<le> i"
  shows "pip_loop p ax ay i ev = run_edges p ax ay [i + 1 .. pointcount p - 1] ev"
  using assms(2)
proof (induction "nat (pointcount p - i)" arbitrary: i ev)
  case 0
  then have "\<not> i < pointcount p - 1" "[i + 1 .. pointcount p - 1] = []" by auto
  then show ?case by (subst pip_loop.simps) simp
next
  case (Suc n)
  show ?case
  proof (cases "i < pointcount p - 1")
    case False
    then have "[i + 1 .. pointcount p - 1] = []" by auto
    then show ?thesis using False by (subst pip_loop.simps) simp
  next
    case True
    then have l: "[i + 1 .. pointcount p - 1] = (i + 1) # [i + 1 + 1 .. pointcount p - 1]"
      by (simp add: upto_rec1)
    have ih: "pip_loop p ax ay (i + 1) ev2 = run_edges p ax ay [i + 1 + 1 .. pointcount p - 1] ev2" for ev2
      using Suc by (intro Suc.hyps(1)) auto
    show ?thesis
      unfolding l using True assms(1)
      by (subst pip_loop.simps) (simp add: ih cong: sum.case_cong edge_result.case_cong)
  qed
qed

text \<open>The prepared loop visits the edges of the chain.\<close>

lemma pip_loop_chain:
  assumes "useprepare p > 0"
  shows "chain (yprepare p) i js e \<Longrightarrow> pointcount p \<le> e \<Longrightarrow> sorted_wrt (<) (i # js) \<Longrightarrow>
         \<forall>j\<in>set js. j < pointcount p \<Longrightarrow>
         pip_loop p ax ay i ev = run_edges p ax ay js ev"
proof (induction js arbitrary: i ev)
  case Nil
  then show ?case using assms by (subst pip_loop.simps) simp
next
  case (Cons j js)
  have j: "rd (yprepare p) i = Inr j" "i < j" "j < pointcount p" "chain (yprepare p) j js e"
    using Cons.prems by auto
  have ih: "pip_loop p ax ay j ev2 = run_edges p ax ay js ev2" for ev2
    using Cons.prems by (intro Cons.IH) auto
  show ?case
    using j assms
    by (subst pip_loop.simps) (simp add: ih cong: sum.case_cong edge_result.case_cong)
qed


lemma pip_edge_cong:
  "points p' = points p \<Longrightarrow> pointcount p' = pointcount p \<Longrightarrow> pip_edge p' ax ay j ev = pip_edge p ax ay j ev"
  by (simp add: pip_edge_def cong: if_cong)

lemma run_edges_cong:
  "points p' = points p \<Longrightarrow> pointcount p' = pointcount p \<Longrightarrow> run_edges p' ax ay js ev = run_edges p ax ay js ev"
  by (induction js arbitrary: ev) (simp_all add: pip_edge_cong [of p' p] cong: sum.case_cong edge_result.case_cong)

text \<open>The table that \<^verbatim>\<open>prepareY\<close> builds.\<close>

lemma band_from_rec:
  "i < pointcount p \<Longrightarrow> band_from p ay i =
     (if edge_in_band p ay i then i # band_from p ay (i + 1) else band_from p ay (i + 1))"
  by (simp add: band_from_def upto_rec1)

lemma band_from_empty: "\<not> i < pointcount p \<Longrightarrow> band_from p ay i = []"
  by (simp add: band_from_def)

lemma prepareY_loop_chain:
  "prepareY_loop p ay i li yp = Inr (li', yp') \<Longrightarrow> 1 \<le> i \<Longrightarrow> li < i \<Longrightarrow> - 1 \<le> li \<Longrightarrow>
   0 \<le> s' \<Longrightarrow> s' < int (length yp') \<Longrightarrow> s' = (if li' \<ge> 0 then li' else 0) \<Longrightarrow>
   s = (if li \<ge> 0 then li else 0) \<Longrightarrow>
   chain (yp'[nat s' := e]) s (band_from p ay i) e \<and>
   (\<forall>k<nat s. (yp'[nat s' := e]) ! k = yp ! k) \<and> length yp' = length yp"
proof (induction p ay i li yp arbitrary: s rule: prepareY_loop.induct)
  case (1 p ay i li yp)
  show ?case
  proof (cases "i < pointcount p")
    case False
    then have eq: "li' = li" "yp' = yp" using "1.prems"(1) by (simp_all add: prepareY_loop.simps [of p ay i])
    then have "s' = s" using "1.prems"(7,8) by simp
    then have "0 \<le> s" "s < int (length yp)" using "1.prems"(5,6) eq by simp_all
    then have "rd (yp[nat s := e]) s = Inr e" by (simp add: rd_def)
    then show ?thesis using False eq \<open>s' = s\<close> by (simp add: band_from_empty)
  next
    case True
    from "1.prems"(1) True obtain a b where rd: "rd (points p) (i - 1) = Inr a" "rd (points p) i = Inr b"
      by (auto simp: prepareY_loop.simps [of p ay i] bindE_def split: sum.splits)
    have ab: "a = points p ! nat (i - 1)" "b = points p ! nat i"
      using rd by (auto simp: rd_def split: if_splits)
    show ?thesis
    proof (cases "in_band ay a b")
      case False
      then have rec: "prepareY_loop p ay (i + 1) li yp = Inr (li', yp')"
        using "1.prems"(1) True rd by (simp add: prepareY_loop.simps [of p ay i] bindE_def)
      have "chain (yp'[nat s' := e]) s (band_from p ay (i + 1)) e \<and>
          (\<forall>k<nat s. (yp'[nat s' := e]) ! k = yp ! k) \<and> length yp' = length yp"
        using "1.prems" by (intro "1.IH"(2) [OF True False rec]) auto
      then show ?thesis using True False ab by (simp add: band_from_rec edge_in_band_def)
    next
      case band: True
      from "1.prems"(1) True rd band obtain yp1 where w: "wr yp s i = Inr yp1"
        and rec: "prepareY_loop p ay (i + 1) i yp1 = Inr (li', yp')"
        using "1.prems"(8) by (auto simp: prepareY_loop.simps [of p ay i] bindE_def split: sum.splits)
      have yp1: "yp1 = yp[nat s := i]" "0 \<le> s" "s < int (length yp)"
        using w by (auto simp: wr_def split: if_splits)
      have ih: "chain (yp'[nat s' := e]) i (band_from p ay (i + 1)) e \<and>
          (\<forall>k<nat i. (yp'[nat s' := e]) ! k = yp1 ! k) \<and> length yp' = length yp1"
        using "1.prems" w
        by (intro "1.IH"(1) [OF True band rec]) auto
      have si: "s < i" using "1.prems" by (auto split: if_splits)
      then have "(yp'[nat s' := e]) ! nat s = i"
        using ih yp1 by simp
      moreover have "nat s < length (yp'[nat s' := e])" using ih yp1 by simp
      ultimately have "rd (yp'[nat s' := e]) s = Inr i" using yp1 by (simp add: rd_def)
      moreover have "\<forall>k<nat s. (yp'[nat s' := e]) ! k = yp ! k"
        using ih yp1 si by auto
      ultimately show ?thesis using ih True band ab yp1 by (simp add: band_from_rec edge_in_band_def)
    qed
  qed
qed


lemma band_from_sorted: "sorted_wrt (<) (0 # band_from p ay 1) \<and> (\<forall>j\<in>set (band_from p ay 1). j < pointcount p)"
proof -
  have "sorted_wrt (<) [1 .. pointcount p - 1]" by simp
  then have "sorted_wrt (<) (band_from p ay 1)" unfolding band_from_def by (rule sorted_wrt_filter)
  then show ?thesis by (auto simp: band_from_def)
qed

lemma prepareY_chain:
  assumes "prepareY p y0 = Inr p'"
  shows "points p' = points p" "pointcount p' = pointcount p" "useprepare p' = 1"
    "xmin p' = xmin p" "xmax p' = xmax p" "ymin p' = ymin p" "ymax p' = ymax p"
    "chain (yprepare p') 0 (band_from p y0 1) (pointcount p + 16)"
proof -
  from assms obtain li yp yp2 where lp: "prepareY_loop p y0 1 (- 1) (yprepare p) = Inr (li, yp)"
    and w: "wr yp (if li \<ge> 0 then li else 0) (pointcount p + 16) = Inr yp2"
    and p': "p' = p\<lparr>useprepare := 1, yprepare := yp2\<rparr>"
    by (auto simp: prepareY_def bindE_def split: sum.splits prod.splits)
  let ?s = "if li \<ge> 0 then li else 0"
  have r: "0 \<le> ?s" "?s < int (length yp)" "yp2 = yp[nat ?s := pointcount p + 16]"
    using w by (auto simp: wr_def split: if_splits)
  from prepareY_loop_chain [OF lp _ _ _ r(1) r(2) refl, of 0 "pointcount p + 16"]
  have "chain yp2 0 (band_from p y0 1) (pointcount p + 16)" using r(3) by simp
  then show "chain (yprepare p') 0 (band_from p y0 1) (pointcount p + 16)" using p' by simp
  show "points p' = points p" "pointcount p' = pointcount p" "useprepare p' = 1"
    "xmin p' = xmin p" "xmax p' = xmax p" "ymin p' = ymin p" "ymax p' = ymax p"
    using p' by simp_all
qed

lemma pip_edge_outside_band:
  assumes "\<not> edge_in_band p y0 j" "\<bar>ay - y0\<bar> \<le> BUFFER" "pip_edge p ax ay j ev = Inr res"
  shows "res = Continue ev"
proof -
  from assms(3) obtain a b where rd: "rd (points p) j = Inr a" "rd (points p) (j - 1) = Inr b"
    by (auto simp: pip_edge_def bindE_def split: sum.splits)
  then have ab: "a = points p ! nat j" "b = points p ! nat (j - 1)"
    by (auto simp: rd_def split: if_splits)
  have out: "(Y a > ay \<and> Y b > ay) \<or> (Y a < ay \<and> Y b < ay)"
    using assms(1,2) ab unfolding edge_in_band_def in_band_def BUFFER_def by arith
  show ?thesis
  proof (cases "X a = X b")
    case True
    then show ?thesis
      using assms(3) rd out
      by (auto simp: pip_edge_def bindE_def minimumI_def maximumI_def Let_def split: if_splits)
  next
    case False
    then show ?thesis
      using assms(3) rd out
      by (auto simp: pip_edge_def bindE_def Let_def split: if_splits)
  qed
qed

lemma run_edges_filter:
  assumes "\<bar>ay - y0\<bar> \<le> BUFFER"
  shows "run_edges p ax ay js ev = Some (Inr r) \<Longrightarrow>
         run_edges p ax ay (filter (edge_in_band p y0) js) ev = Some (Inr r)"
proof (induction js arbitrary: ev)
  case Nil
  then show ?case by simp
next
  case (Cons j js)
  from Cons.prems obtain res where res: "pip_edge p ax ay j ev = Inr res"
    by (cases "pip_edge p ax ay j ev") auto
  show ?case
  proof (cases "edge_in_band p y0 j")
    case True
    then show ?thesis using Cons res by (cases res) auto
  next
    case False
    then have "res = Continue ev" using pip_edge_outside_band [OF False assms res] by simp
    then show ?thesis using Cons res False by simp
  qed
qed


lemma isDiagonalFree_from_ok:
  "isDiagonalFree_from i p = Inr 1 \<Longrightarrow> 1 \<le> i \<Longrightarrow> i \<le> j \<Longrightarrow> j < pointcount p \<Longrightarrow>
   j < int (length (points p)) \<and>
   (X (points p ! nat (j - 1)) = X (points p ! nat j) \<or> Y (points p ! nat (j - 1)) = Y (points p ! nat j))"
proof (induction i p rule: isDiagonalFree_from.induct)
  case (1 i p)
  have i: "i < pointcount p" using "1.prems" by simp
  from "1.prems"(1) i obtain a b where rd: "rd (points p) (i - 1) = Inr a" "rd (points p) i = Inr b"
    by (auto simp: isDiagonalFree_from.simps [of i p] bindE_def split: sum.splits)
  have ab: "a = points p ! nat (i - 1)" "b = points p ! nat i" "i < int (length (points p))"
    using rd by (auto simp: rd_def split: if_splits)
  have nd: "\<not> (X a \<noteq> X b \<and> Y a \<noteq> Y b)" and rec: "isDiagonalFree_from (i + 1) p = Inr 1"
    using "1.prems"(1) i rd by (auto simp: isDiagonalFree_from.simps [of i p] bindE_def split: if_splits)
  show ?case
  proof (cases "j = i")
    case True
    then show ?thesis using ab nd by auto
  next
    case False
    then show ?thesis
      using "1.IH" [OF i nd rec] "1.prems" by auto
  qed
qed

lemma pip_edge_returns:
  assumes j: "1 \<le> j" "j < pointcount p" "pointcount p \<le> int (length (points p))"
    and nd: "X (points p ! nat (j - 1)) = X (points p ! nat j) \<or> Y (points p ! nat (j - 1)) = Y (points p ! nat j)"
  shows "\<exists>res. pip_edge p ax ay j ev = Inr res"
proof -
  let ?a = "points p ! nat j" and ?b = "points p ! nat (j - 1)"
  have r1: "rd (points p) j = Inr ?a" "rd (points p) (j - 1) = Inr ?b"
    using j by (simp_all add: rd_def)
  have "\<exists>q2. (if j < pointcount p - 1 then rd (points p) (j + 1) else rd (points p) 1) = Inr q2"
    using j by (simp add: rd_def)
  then obtain q2 where r2: "(if j < pointcount p - 1 then rd (points p) (j + 1) else rd (points p) 1) = Inr q2"
    by blast
  have "\<exists>q0. (if j > 1 then rd (points p) (j - 2) else rd (points p) (pointcount p - 2)) = Inr q0"
    using j by (simp add: rd_def)
  then obtain q0 where r3: "(if j > 1 then rd (points p) (j - 2) else rd (points p) (pointcount p - 2)) = Inr q0"
    by blast
  have r4: "(if j > 0 then rd (points p) (j - 1) else rd (points p) (pointcount p - 2)) = Inr ?b"
    "(if j > 1 \<or> j = 1 then rd (points p) j else rd (points p) 0) = Inr ?a"
    using j r1 by auto
  show ?thesis
  proof (cases "X ?a = X ?b")
    case True
    then show ?thesis
      using j by (simp add: pip_edge_def r1 r2 r3 bindE_def Let_def)
  next
    case False
    then have "Y ?a = Y ?b" using nd by auto
    then show ?thesis
      using j False by (simp add: pip_edge_def r1 r2 r3 bindE_def Let_def)
  qed
qed

lemma run_edges_returns:
  assumes "pointcount p \<le> int (length (points p))"
  shows "\<forall>j\<in>set js. 1 \<le> j \<and> j < pointcount p \<and>
           (X (points p ! nat (j - 1)) = X (points p ! nat j) \<or> Y (points p ! nat (j - 1)) = Y (points p ! nat j)) \<Longrightarrow>
         \<exists>r. run_edges p ax ay js ev = Some (Inr r)"
proof (induction js arbitrary: ev)
  case Nil
  then show ?case by simp
next
  case (Cons j js)
  then obtain res where res: "pip_edge p ax ay j ev = Inr res"
    using pip_edge_returns [OF _ _ assms, of j ax ay ev] by auto
  show ?case
  proof (cases res)
    case (Return r)
    then show ?thesis using res by simp
  next
    case (Continue ev2)
    then show ?thesis using res Cons.IH [of ev2] Cons.prems by simp
  qed
qed

lemma prepareY_agrees:
  assumes prep: "prepareY p y0 = Inr p'" and near: "\<bar>ay - y0\<bar> \<le> BUFFER"
  shows "(\<forall>r. point_in_polygonVH (unPrepareY p) ax ay = Some (Inr r) \<longrightarrow>
              point_in_polygonVH p' ax ay = Some (Inr r)) \<and>
         (isDiagonalFree p = Inr 1 \<longrightarrow>
            returns (point_in_polygonVH (unPrepareY p) ax ay) \<and>
            point_in_polygonVH p' ax ay = point_in_polygonVH (unPrepareY p) ax ay)"
proof -
  note pc = prepareY_chain [OF prep]
  let ?all = "[1 .. pointcount p - 1]"
  have "pip_loop (unPrepareY p) ax ay 0 1 = run_edges (unPrepareY p) ax ay [0 + 1 .. pointcount (unPrepareY p) - 1] 1"
    by (rule pip_loop_unprepared) (simp_all add: unPrepareY_def)
  also have "\<dots> = run_edges (unPrepareY p) ax ay ?all 1"
    by (simp add: unPrepareY_def)
  also have "\<dots> = run_edges p ax ay ?all 1"
    by (rule run_edges_cong) (simp_all add: unPrepareY_def)
  finally have un: "pip_loop (unPrepareY p) ax ay 0 1 = run_edges p ax ay ?all 1" .
  have srt: "sorted_wrt (<) (0 # band_from p y0 1)" "\<forall>j\<in>set (band_from p y0 1). j < pointcount p'"
    using band_from_sorted [of p y0] pc(2) by simp_all
  have "pip_loop p' ax ay 0 1 = run_edges p' ax ay (band_from p y0 1) 1"
  proof (rule pip_loop_chain [where e = "pointcount p + 16"])
    show "0 < useprepare p'" using pc(3) by simp
    show "chain (yprepare p') 0 (band_from p y0 1) (pointcount p + 16)" by (rule pc(8))
    show "pointcount p' \<le> pointcount p + 16" using pc(2) by simp
    show "sorted_wrt (<) (0 # band_from p y0 1)" by (rule srt(1))
    show "\<forall>j\<in>set (band_from p y0 1). j < pointcount p'" by (rule srt(2))
  qed
  also have "\<dots> = run_edges p ax ay (band_from p y0 1) 1"
    by (rule run_edges_cong) (rule pc(1), rule pc(2))
  finally have pr: "pip_loop p' ax ay 0 1 = run_edges p ax ay (filter (edge_in_band p y0) ?all) 1"
    by (simp add: band_from_def)
  have box: "xmin (unPrepareY p) = xmin p'" "xmax (unPrepareY p) = xmax p'"
    "ymin (unPrepareY p) = ymin p'" "ymax (unPrepareY p) = ymax p'"
    using pc by (simp_all add: unPrepareY_def)
  have a: "point_in_polygonVH p' ax ay = Some (Inr r)"
    if "point_in_polygonVH (unPrepareY p) ax ay = Some (Inr r)" for r
  proof (cases "ax < xmin p' \<or> ax > xmax p' \<or> ay < ymin p' \<or> ay > ymax p'")
    case True
    then show ?thesis using that box by (simp add: point_in_polygonVH_def)
  next
    case False
    then have "run_edges p ax ay ?all 1 = Some (Inr r)"
      using that box un by (simp add: point_in_polygonVH_def)
    then have "run_edges p ax ay (filter (edge_in_band p y0) ?all) 1 = Some (Inr r)"
      by (rule run_edges_filter [OF near])
    then show ?thesis using False pr by (simp add: point_in_polygonVH_def)
  qed
  have b: "returns (point_in_polygonVH (unPrepareY p) ax ay) \<and>
      point_in_polygonVH p' ax ay = point_in_polygonVH (unPrepareY p) ax ay"
    if df: "isDiagonalFree p = Inr 1"
  proof -
    have ok: "j < int (length (points p)) \<and>
        (X (points p ! nat (j - 1)) = X (points p ! nat j) \<or> Y (points p ! nat (j - 1)) = Y (points p ! nat j))"
      if "1 \<le> j" "j < pointcount p" for j
      using isDiagonalFree_from_ok [of 1 p j] df that by (simp add: isDiagonalFree_def)
    have "\<exists>r. run_edges p ax ay ?all 1 = Some (Inr r)"
    proof (cases "pointcount p \<le> int (length (points p))")
      case True
      show ?thesis
        using ok by (intro run_edges_returns [OF True]) auto
    next
      case False
      then have "pointcount p \<le> 1" using ok [of "pointcount p - 1"] by (cases "1 \<le> pointcount p - 1") auto
      then have "?all = []" by simp
      then show ?thesis by simp
    qed
    then have "\<exists>r. point_in_polygonVH (unPrepareY p) ax ay = Some (Inr r)"
      using un by (simp add: point_in_polygonVH_def)
    then obtain r where r: "point_in_polygonVH (unPrepareY p) ax ay = Some (Inr r)" by blast
    then show ?thesis using a [OF r] by (simp add: returns_def)
  qed
  show ?thesis using a b by blast
qed




section \<open>The square, with and without the jump table\<close>

text \<open>
  Claim C2. For a polygon whose five vertices form a closed axis-aligned square, with
  a bounding box that contains the vertices (as \<^verbatim>\<open>Polygon::load\<close> computes it),
  \<^verbatim>\<open>point_in_polygonVH\<close> returns interior for every point strictly inside the square,
  boundary for every point on an edge, and exterior for every other point: with the
  jump table switched off, and with the jump table of any row within the buffer of
  the query's row.
\<close>

theorem square_classification:
  assumes sq: "is_square (points apg)" and pc: "pointcount apg = 5" and box: "box_covers apg"
  shows "point_in_polygonVH (unPrepareY apg) ax ay =
     Some (Inr (if strictly_inside (points apg ! 0) (points apg ! 2) ax ay then PIP_INTERIOR
                else if on_an_edge (points apg ! 0) (points apg ! 2) ax ay then PIP_BOUNDARY
                else PIP_EXTERIOR)) \<and>
   (\<forall>y0 p'. prepareY apg y0 = Inr p' \<and> \<bar>ay - y0\<bar> \<le> BUFFER \<longrightarrow>
      point_in_polygonVH p' ax ay =
        Some (Inr (if strictly_inside (points apg ! 0) (points apg ! 2) ax ay then PIP_INTERIOR
                   else if on_an_edge (points apg ! 0) (points apg ! 2) ax ay then PIP_BOUNDARY
                   else PIP_EXTERIOR)))"
proof -
  let ?r = "if strictly_inside (points apg ! 0) (points apg ! 2) ax ay then PIP_INTERIOR
            else if on_an_edge (points apg ! 0) (points apg ! 2) ax ay then PIP_BOUNDARY
            else PIP_EXTERIOR"
  have u: "point_in_polygonVH (unPrepareY apg) ax ay = Some (Inr ?r)"
    using square_unprepared [of "unPrepareY apg" ax ay] sq pc box
    by (simp add: unPrepareY_def box_covers_def)
  have "point_in_polygonVH p' ax ay = Some (Inr ?r)"
    if "prepareY apg y0 = Inr p'" "\<bar>ay - y0\<bar> \<le> BUFFER" for y0 p'
    using prepareY_agrees [OF that, of ax] u by blast
  then show ?thesis using u by blast
qed

theorem square_classification_witness:
  "point_in_polygonVH (unPrepareY square_example) 50 50 = Some (Inr PIP_INTERIOR) \<and>
   point_in_polygonVH (unPrepareY square_example) 100 7 = Some (Inr PIP_BOUNDARY) \<and>
   point_in_polygonVH (unPrepareY square_example) 103 50 = Some (Inr PIP_EXTERIOR)"
  using square_classification [of square_example 50 50]
    square_classification [of square_example 100 7]
    square_classification [of square_example 103 50]
  by (simp add: square_example_def is_square_def box_covers_def strictly_inside_def on_an_edge_def)

section \<open>The snippet fusion: termination and the raster it ends with\<close>

lemma forE_invariant:
  assumes "forE lo n body s = Inr s'" "P s"
    and "\<And>i t t'. lo \<le> i \<Longrightarrow> i < n \<Longrightarrow> P t \<Longrightarrow> body i t = Inr t' \<Longrightarrow> P t'"
  shows "P s'"
  using assms
proof (induction lo n body s rule: forE.induct)
  case (1 i n body s)
  show ?case
  proof (cases "i < n")
    case False
    then show ?thesis using "1.prems" by (simp add: forE.simps [of i n])
  next
    case True
    then obtain t where t: "body i s = Inr t" and rec: "forE (i + 1) n body t = Inr s'"
      using "1.prems"(1) by (auto simp: forE.simps [of i n] split: sum.splits)
    have pt: "P t" using "1.prems"(3) [of i s t] True "1.prems"(2) t by simp
    have step: "P u'" if "i + 1 \<le> j" "j < n" "P u" "body j u = Inr u'" for j u u'
      using "1.prems"(3) [of j u u'] that by simp
    show ?thesis
      by (rule "1.IH" [OF True t rec pt]) (rule step)
  qed
qed

lemma count_update_le:
  "uint v \<noteq> f \<Longrightarrow> length (filter (\<lambda>v. uint v = f) (xs[i := v])) \<le> length (filter (\<lambda>v. uint v = f) xs)"
  by (induction xs arbitrary: i) (auto split: nat.splits)

lemma count_update_less:
  "i < length xs \<Longrightarrow> uint (xs ! i) = f \<Longrightarrow> uint v \<noteq> f \<Longrightarrow>
   length (filter (\<lambda>v. uint v = f) (xs[i := v])) < length (filter (\<lambda>v. uint v = f) xs)"
proof (induction xs arbitrary: i)
  case Nil
  then show ?case by simp
next
  case (Cons a xs)
  show ?case
  proof (cases i)
    case 0
    then show ?thesis using Cons.prems by simp
  next
    case (Suc k)
    then show ?thesis using Cons.prems Cons.IH [of k] by simp
  qed
qed

text \<open>Reading and writing pixels.\<close>

lemma is_relf_True:
  "is_relf c x y f = Inr True \<Longrightarrow>
   0 \<le> y * xlen c + x \<and> y * xlen c + x < int (length (cmp c)) \<and> uint (cmp c ! nat (y * xlen c + x)) = f"
  by (auto simp: is_relf_def getPoint_def rd_def bindE_def split: if_splits)

lemma is_col_True:
  "is_col c x y f = Inr True \<Longrightarrow>
   0 \<le> y * xlen c + x \<and> y * xlen c + x < int (length (cmp c)) \<and> cmp c ! nat (y * xlen c + x) = f"
  by (auto simp: is_col_def getPoint_def rd_def bindE_def split: if_splits)

lemma setPoint_Inr:
  "setPoint c x y v = Inr c' \<Longrightarrow>
   c' = c\<lparr>cmp := (cmp c)[nat (y * xlen c + x) := v]\<rparr> \<and> 0 \<le> y * xlen c + x \<and> y * xlen c + x < int (length (cmp c))"
  by (auto simp: setPoint_def wr_def bindE_def split: if_splits)

lemma setPoint_count_le:
  "setPoint c x y v = Inr c' \<Longrightarrow> uint v \<noteq> f \<Longrightarrow>
   count_col f c' \<le> count_col f c \<and> xlen c' = xlen c \<and> ylen c' = ylen c \<and> length (cmp c') = length (cmp c)"
  using count_update_le [of v f "cmp c"] by (auto dest!: setPoint_Inr simp: count_col_def)

lemma setPoint_count_less:
  "setPoint c x y v = Inr c' \<Longrightarrow> uint v \<noteq> f \<Longrightarrow> uint (cmp c ! nat (y * xlen c + x)) = f \<Longrightarrow>
   count_col f c' < count_col f c"
  using count_update_less [of "nat (y * xlen c + x)" "cmp c" f v]
  by (auto dest!: setPoint_Inr simp: count_col_def)


lemma fusion_pixel_cases:
  assumes "fusion_pixel relf y x (c, ch) = Inr (c', ch')"
  obtains (same) "c' = c" "ch' = ch"
  | (horiz) c1 where "is_relf c x y relf = Inr True" "setPoint c x y AKTIVCOL = Inr c1"
      "setPoint c1 (x + 1) y AKTIVCOL = Inr c'" "ch' = 1"
  | (vert) c1 where "is_relf c x y relf = Inr True" "setPoint c x y AKTIVCOL = Inr c1"
      "setPoint c1 x (y + 1) AKTIVCOL = Inr c'" "ch' = 1"
  using assms
  by (auto simp: fusion_pixel_def bindE_def split: sum.splits if_splits)

lemma fusion_pixel_effect:
  assumes "fusion_pixel relf y x (c, ch) = Inr (c', ch')" "relf \<noteq> uint AKTIVCOL"
  shows "(c' = c \<and> ch' = ch) \<or>
         (ch' = 1 \<and> count_col relf c' < count_col relf c \<and> xlen c' = xlen c \<and> ylen c' = ylen c \<and>
          length (cmp c') = length (cmp c))"
  using assms(1)
proof (cases rule: fusion_pixel_cases)
  case same
  then show ?thesis by simp
next
  case (horiz c1)
  have a: "uint AKTIVCOL \<noteq> relf" using assms(2) by simp
  have "count_col relf c1 < count_col relf c"
    using setPoint_count_less [OF horiz(2) a] is_relf_True [OF horiz(1)] by simp
  then show ?thesis
    using setPoint_count_le [OF horiz(2) a] setPoint_count_le [OF horiz(3) a] horiz(4) by simp
next
  case (vert c1)
  have a: "uint AKTIVCOL \<noteq> relf" using assms(2) by simp
  have "count_col relf c1 < count_col relf c"
    using setPoint_count_less [OF vert(2) a] is_relf_True [OF vert(1)] by simp
  then show ?thesis
    using setPoint_count_le [OF vert(2) a] setPoint_count_le [OF vert(3) a] vert(4) by simp
qed

lemma fusion_pixel_inv:
  assumes "fusion_pixel relf y x st = Inr st'" "relf \<noteq> uint AKTIVCOL" "pass_inv relf c st"
  shows "pass_inv relf c st'"
proof -
  obtain c1 ch1 c2 ch2 where st: "st = (c1, ch1)" "st' = (c2, ch2)" by (cases st; cases st') auto
  from fusion_pixel_effect [OF assms(1) [unfolded st] assms(2)] assms(3)
  show ?thesis unfolding st pass_inv_def by auto
qed

lemma fusion_pass_effect:
  assumes "fusion_pass relf c = Inr (c', ch)" "relf \<noteq> uint AKTIVCOL"
  shows "(c' = c \<and> ch = 0) \<or>
         (ch = 1 \<and> count_col relf c' < count_col relf c \<and> xlen c' = xlen c \<and> ylen c' = ylen c \<and>
          length (cmp c') = length (cmp c))"
proof -
  have row: "pass_inv relf c t'" if "pass_inv relf c t" "forE 1 (xlen (fst t) - 2) (fusion_pixel relf y) t = Inr t'" for y t t'
    using that(2) that(1)
    by (rule forE_invariant) (rule fusion_pixel_inv [OF _ assms(2)])
  have "pass_inv relf c (c', ch)"
  proof (rule forE_invariant [where P = "pass_inv relf c", OF assms(1) [unfolded fusion_pass_def]])
    show "pass_inv relf c (c, 0)" by (simp add: pass_inv_def)
    fix i t t' assume "pass_inv relf c t" "forE 1 (xlen (fst t) - 2) (fusion_pixel relf i) t = Inr t'"
    then show "pass_inv relf c t'" by (rule row)
  qed
  then show ?thesis by (auto simp: pass_inv_def)
qed

lemma connect_snippets_terminates:
  assumes "relf \<noteq> uint AKTIVCOL"
  shows "\<exists>r. connect_snippets relf c = Some r"
proof (induction "count_col relf c" arbitrary: c rule: less_induct)
  case less
  show ?case
  proof (cases "fusion_pass relf c")
    case (Inl e)
    then show ?thesis by (subst connect_snippets.simps) simp
  next
    case (Inr st)
    obtain c' ch where st: "st = (c', ch)" by (cases st)
    show ?thesis
    proof (cases "ch > 0")
      case False
      then show ?thesis using Inr st by (subst connect_snippets.simps) simp
    next
      case True
      then have "count_col relf c' < count_col relf c"
        using fusion_pass_effect [OF Inr [unfolded st] assms] by auto
      from less [OF this] show ?thesis using Inr st True by (subst connect_snippets.simps) simp
    qed
  qed
qed


lemma connect_snippets_fixed:
  assumes "relf \<noteq> uint AKTIVCOL"
  shows "\<exists>r. connect_snippets relf c = Some r \<and> (\<forall>c'. r = Inr c' \<longrightarrow> fusion_pass relf c' = Inr (c', 0))"
proof (induction "count_col relf c" arbitrary: c rule: less_induct)
  case less
  show ?case
  proof (cases "fusion_pass relf c")
    case (Inl e)
    then show ?thesis by (subst connect_snippets.simps) simp
  next
    case (Inr st)
    obtain c' ch where st: "st = (c', ch)" by (cases st)
    note eff = fusion_pass_effect [OF Inr [unfolded st] assms]
    show ?thesis
    proof (cases "ch > 0")
      case False
      then have "c' = c" "ch = 0" using eff by auto
      then show ?thesis using Inr st by (subst connect_snippets.simps) simp
    next
      case True
      then have "count_col relf c' < count_col relf c" using eff by auto
      from less [OF this] show ?thesis using Inr st True by (subst connect_snippets.simps) simp
    qed
  qed
qed

lemma forE_fixed:
  assumes "forE lo n body s = Inr z" and "\<And>i t t'. body i t = Inr t' \<Longrightarrow> t' = z \<Longrightarrow> t = z"
  shows "s = z \<and> (\<forall>i. lo \<le> i \<and> i < n \<longrightarrow> body i z = Inr z)"
  using assms
proof (induction lo n body s rule: forE.induct)
  case (1 i n body s)
  show ?case
  proof (cases "i < n")
    case False
    then show ?thesis using "1.prems"(1) by (auto simp: forE.simps [of i n])
  next
    case True
    then obtain t where t: "body i s = Inr t" and rec: "forE (i + 1) n body t = Inr z"
      using "1.prems"(1) by (auto simp: forE.simps [of i n] split: sum.splits)
    have ih: "t = z \<and> (\<forall>j. i + 1 \<le> j \<and> j < n \<longrightarrow> body j z = Inr z)"
      by (rule "1.IH" [OF True t rec]) (rule "1.prems"(2))
    then have s: "s = z" using "1.prems"(2) [OF t] by simp
    have "body j z = Inr z" if "i \<le> j" "j < n" for j
    proof (cases "j = i")
      case True
      then show ?thesis using t s ih by simp
    next
      case False
      then show ?thesis using ih that by simp
    qed
    then show ?thesis using s by simp
  qed
qed

lemma fusion_pixel_back:
  "fusion_pixel relf y x t = Inr t' \<Longrightarrow> t' = (c, 0) \<Longrightarrow> t = (c, 0)"
proof -
  assume a: "fusion_pixel relf y x t = Inr t'" "t' = (c, 0)"
  obtain c1 ch1 where t: "t = (c1, ch1)" by (cases t)
  from a(1) [unfolded t a(2)] show ?thesis
    by (cases rule: fusion_pixel_cases) (simp_all add: t)
qed

lemma fusion_pass_fixed_pixels:
  assumes "fusion_pass relf c = Inr (c, 0)" "1 \<le> x" "x < xlen c - 2" "1 \<le> y" "y < ylen c - 2"
  shows "fusion_pixel relf y x (c, 0) = Inr (c, 0)"
proof -
  have bk: "t = (c, 0)" if "forE 1 (xlen (fst t) - 2) (fusion_pixel relf j) t = Inr t'" "t' = (c, 0)" for j t t'
    using forE_fixed [OF that(1) [unfolded that(2)]] fusion_pixel_back by blast
  have "\<forall>j. 1 \<le> j \<and> j < ylen c - 2 \<longrightarrow> forE 1 (xlen (fst (c, 0::int)) - 2) (fusion_pixel relf j) (c, 0) = Inr (c, 0)"
    using forE_fixed [OF assms(1) [unfolded fusion_pass_def]] bk by blast
  then have "forE 1 (xlen c - 2) (fusion_pixel relf y) (c, 0) = Inr (c, 0)"
    using assms(4,5) by simp
  from forE_fixed [OF this] fusion_pixel_back show ?thesis using assms(2,3) by blast
qed

lemma flank_h_free: "list_all (\<lambda>dx. is_col c (x + dx) (y - 1) COLORGRAY = Inr False \<and>
                    is_col c (x + dx) (y + 1) COLORGRAY = Inr False) dxs \<Longrightarrow> flank_h c x y dxs = Inr True"
  by (induction dxs) (simp_all add: orE_def bindE_def)

lemma flank_v_free: "list_all (\<lambda>dy. is_col c (x - 1) (y + dy) COLORGRAY = Inr False \<and>
                    is_col c (x + 1) (y + dy) COLORGRAY = Inr False) dys \<Longrightarrow> flank_v c x y dys = Inr True"
  by (induction dys) (simp_all add: orE_def bindE_def)

lemma promotable_changes:
  assumes "promotable relf c x y"
  shows "fusion_pixel relf y x (c, 0) \<noteq> Inr (c, 0)"
proof -
  have here: "is_relf c x y relf = Inr True" using assms by (simp add: promotable_def)
  from assms consider (h) "pattern_h relf c x y = Inr True" "flank_h c x y [0 .. 3] = Inr True"
    | (v) "pattern_h relf c x y = Inr False" "pattern_v relf c x y = Inr True" "flank_v c x y [0 .. 3] = Inr True"
    using flank_h_free [of c x y "[0 .. 3]"] flank_v_free [of c x y "[0 .. 3]"]
    by (auto simp: promotable_def gray_free_h_def gray_free_v_def)
  then show ?thesis
  proof cases
    case h
    then show ?thesis using here
      by (auto simp: fusion_pixel_def bindE_def split: sum.splits)
  next
    case v
    then show ?thesis using here
      by (auto simp: fusion_pixel_def bindE_def split: sum.splits)
  qed
qed

lemma fusion_stable:
  assumes "relf \<noteq> uint AKTIVCOL"
  shows "\<exists>r. connect_snippets relf c = Some r \<and>
     (\<forall>c'. r = Inr c' \<longrightarrow>
        (\<forall>x y. 1 \<le> x \<and> x < xlen c' - 2 \<and> 1 \<le> y \<and> y < ylen c' - 2 \<longrightarrow> \<not> promotable relf c' x y))"
proof -
  obtain r where r: "connect_snippets relf c = Some r" "\<forall>c'. r = Inr c' \<longrightarrow> fusion_pass relf c' = Inr (c', 0)"
    using connect_snippets_fixed [OF assms, of c] by blast
  have "\<not> promotable relf c' x y"
    if "r = Inr c'" "1 \<le> x" "x < xlen c' - 2" "1 \<le> y" "y < ylen c' - 2" for c' x y
    using fusion_pass_fixed_pixels [of relf c' x y] promotable_changes [of relf c' x y] r(2) that by blast
  then show ?thesis using r(1) by blast
qed

section \<open>The boundary tracer: termination\<close>

lemma blue_yellow: "uint COLORYELLOW \<noteq> uint COLORBLUE"
  by (simp add: COLORYELLOW_def COLORBLUE_def)

lemma next_blue_cases:
  assumes "next_blue blau x y = Inr (Some (nx, ny))"
  shows "is_col blau nx ny COLORBLUE = Inr True \<and>
         ((nx, ny) = (x + 1, y) \<or> (nx, ny) = (x - 1, y) \<or> (nx, ny) = (x, y - 1) \<or> (nx, ny) = (x, y + 1))"
  using assms
  by (auto simp: next_blue_def bindE_def split: sum.splits if_splits)

lemma setPoint_blue_less:
  assumes "is_col blau nx ny COLORBLUE = Inr True" "setPoint blau nx ny COLORYELLOW = Inr b"
  shows "count_col (uint COLORBLUE) b < count_col (uint COLORBLUE) blau"
  using setPoint_count_less [OF assms(2) blue_yellow] is_col_True [OF assms(1)] by simp

lemma walk_rule:
  assumes inv: "Inv blau p1 ax ay"
    and step: "\<And>blau p1 ax ay nx ny blau' p1'.
       Inv blau p1 ax ay \<Longrightarrow> \<not> (ax = sx \<and> ay = sy) \<Longrightarrow> next_blue blau ax ay = Inr (Some (nx, ny)) \<Longrightarrow>
       setPoint blau nx ny COLORYELLOW = Inr blau' \<Longrightarrow> POLYGONADD cv p1 nx ny = Inr p1' \<Longrightarrow>
       Inv blau' p1' nx ny"
  shows "\<exists>r. walk cv sx sy blau p1 ax ay = Some r \<and> (\<forall>b p. r = Inr (b, p) \<longrightarrow> Inv b p sx sy)"
  using inv
proof (induction "count_col (uint COLORBLUE) blau" arbitrary: blau p1 ax ay rule: less_induct)
  case less
  show ?case
  proof (cases "ax = sx \<and> ay = sy")
    case True
    then show ?thesis using less.prems by (subst walk.simps) simp
  next
    case False
    show ?thesis
    proof (cases "next_blue blau ax ay")
      case (Inl e)
      then show ?thesis by (subst walk.simps) (simp add: if_not_P [OF False])
    next
      case (Inr o1)
      show ?thesis
      proof (cases o1)
        case None
        then show ?thesis using Inr by (subst walk.simps) (simp add: if_not_P [OF False])
      next
        case (Some n)
        obtain nx ny where n: "n = (nx, ny)" by (cases n)
        note nb = Inr [unfolded Some n]
        show ?thesis
        proof (cases "setPoint blau nx ny COLORYELLOW")
          case (Inl e)
          then show ?thesis using nb by (subst walk.simps) (simp add: if_not_P [OF False])
        next
          case sp: (Inr blau')
          show ?thesis
          proof (cases "POLYGONADD cv p1 nx ny")
            case (Inl e)
            then show ?thesis using nb sp by (subst walk.simps) (simp add: if_not_P [OF False])
          next
            case pa: (Inr p1')
            have lt: "count_col (uint COLORBLUE) blau' < count_col (uint COLORBLUE) blau"
              using setPoint_blue_less [OF _ sp] next_blue_cases [OF nb] by simp
            have i': "Inv blau' p1' nx ny" by (rule step [OF less.prems False nb sp pa])
            from less.hyps [OF lt i'] show ?thesis using nb sp pa by (subst walk.simps) (simp add: if_not_P [OF False])
          qed
        qed
      qed
    qed
  qed
qed

lemma walk_returns:
  "\<exists>r. walk cv sx sy blau p1 ax ay = Some r \<and>
       (\<forall>b p. r = Inr (b, p) \<longrightarrow> count_col (uint COLORBLUE) b \<le> count_col (uint COLORBLUE) blau)"
proof (rule walk_rule [where Inv = "\<lambda>b p x y. count_col (uint COLORBLUE) b \<le> count_col (uint COLORBLUE) blau"])
  show "count_col (uint COLORBLUE) blau \<le> count_col (uint COLORBLUE) blau" by simp
next
  fix b :: Charmap and nx ny b'
  assume "count_col (uint COLORBLUE) b \<le> count_col (uint COLORBLUE) blau"
    "setPoint b nx ny COLORYELLOW = Inr b'"
  then show "count_col (uint COLORBLUE) b' \<le> count_col (uint COLORBLUE) blau"
    using setPoint_count_le [of b nx ny COLORYELLOW b' "uint COLORBLUE"] blue_yellow by simp
qed

lemma trace_polygon_returns:
  assumes "is_col blau nx ny COLORBLUE = Inr True"
  shows "\<exists>r. trace_polygon cv R0 R1 blau sx sy nx ny = Some r \<and>
       (\<forall>b p. r = Inr (b, p) \<longrightarrow> count_col (uint COLORBLUE) b < count_col (uint COLORBLUE) blau)"
proof (cases "bindE (setlen (Polygon_new raw_polygon) (xlen blau * 16)) (\<lambda>p0.
           bindE (setPoint blau nx ny COLORYELLOW) (\<lambda>blau1.
           bindE (POLYGONADD cv (p0\<lparr>nenner := NENNER, cx0 := of_int R0, cy0 := of_int R0,
                                     cx1 := of_int R1, cy1 := of_int R1\<rparr>) sx sy) (\<lambda>pa.
           bindE (POLYGONADD cv pa nx ny) (\<lambda>pb. Inr (blau1, pb)))))")
  case (Inl e)
  then show ?thesis by (simp add: trace_polygon_def)
next
  case (Inr st)
  obtain blau1 pb where st: "st = (blau1, pb)" by (cases st)
  have sp: "setPoint blau nx ny COLORYELLOW = Inr blau1"
    using Inr st by (auto simp: bindE_def split: sum.splits)
  have lt: "count_col (uint COLORBLUE) blau1 < count_col (uint COLORBLUE) blau"
    by (rule setPoint_blue_less [OF assms sp])
  obtain r where r: "walk cv sx sy blau1 pb nx ny = Some r"
    "\<forall>b p. r = Inr (b, p) \<longrightarrow> count_col (uint COLORBLUE) b \<le> count_col (uint COLORBLUE) blau1"
    using walk_returns [of cv sx sy blau1 pb nx ny] by blast
  show ?thesis
  proof (cases r)
    case (Inl e)
    then show ?thesis using Inr st r(1) by (simp add: trace_polygon_def)
  next
    case rr: (Inr bp)
    obtain b2 p1 where bp: "bp = (b2, p1)" by (cases bp)
    have le: "count_col (uint COLORBLUE) b2 \<le> count_col (uint COLORBLUE) blau1" using r(2) rr bp by simp
    show ?thesis
      using Inr st r(1) rr bp le lt by (cases "trimColinearStart p1") (simp_all add: trace_polygon_def)
  qed
qed

lemma find_blue_x_blue:
  "find_blue_x blau y x = Inr (Some sx) \<Longrightarrow> is_col blau sx y COLORBLUE = Inr True"
proof (induction blau y x rule: find_blue_x.induct)
  case (1 blau y x)
  show ?case
  proof (cases "x < xlen blau")
    case False
    then show ?thesis using "1.prems" by (simp add: find_blue_x.simps [of blau y x])
  next
    case True
    then obtain b where b: "is_col blau x y COLORBLUE = Inr b"
      using "1.prems" by (auto simp: find_blue_x.simps [of blau y x] bindE_def split: sum.splits)
    show ?thesis
    proof (cases b)
      case True
      then show ?thesis using "1.prems" b \<open>x < xlen blau\<close>
        by (simp add: find_blue_x.simps [of blau y x] bindE_def)
    next
      case False
      then have "find_blue_x blau y (x + 1) = Inr (Some sx)" using "1.prems" b \<open>x < xlen blau\<close>
        by (simp add: find_blue_x.simps [of blau y x] bindE_def)
      from "1.IH" [OF \<open>x < xlen blau\<close> False this] show ?thesis .
    qed
  qed
qed

lemma find_blue_blue:
  "find_blue blau y = Inr (Some (sx, sy)) \<Longrightarrow> is_col blau sx sy COLORBLUE = Inr True"
proof (induction blau y rule: find_blue.induct)
  case (1 blau y)
  show ?case
  proof (cases "y < ylen blau")
    case False
    then show ?thesis using "1.prems" by (simp add: find_blue.simps [of blau y])
  next
    case True
    then obtain r where r: "find_blue_x blau y 0 = Inr r"
      using "1.prems" by (auto simp: find_blue.simps [of blau y] bindE_def split: sum.splits)
    show ?thesis
    proof (cases r)
      case (Some x)
      then show ?thesis using "1.prems" r True find_blue_x_blue [of blau y 0 x]
        by (simp add: find_blue.simps [of blau y] bindE_def)
    next
      case None
      then have "find_blue blau (y + 1) = Inr (Some (sx, sy))" using "1.prems" r True
        by (simp add: find_blue.simps [of blau y] bindE_def)
      from "1.IH" [OF True this] show ?thesis .
    qed
  qed
qed

lemma build_loop_returns:
  "\<exists>r. build_loop cv R0 R1 lb blau out = Some r"
proof (induction "count_col (uint COLORBLUE) blau" arbitrary: blau out rule: less_induct)
  case less
  show ?case
  proof (cases "find_blue blau 0")
    case (Inl e)
    then show ?thesis by (subst build_loop.simps) simp
  next
    case (Inr o1)
    show ?thesis
    proof (cases o1)
      case None
      then show ?thesis using Inr by (subst build_loop.simps) simp
    next
      case (Some s)
      obtain sx sy where s: "s = (sx, sy)" by (cases s)
      note fb = Inr [unfolded Some s]
      have sb: "is_col blau sx sy COLORBLUE = Inr True" by (rule find_blue_blue [OF fb])
      show ?thesis
      proof (cases "next_blue blau sx sy")
        case (Inl e)
        then show ?thesis using fb by (subst build_loop.simps) simp
      next
        case nb: (Inr o2)
        show ?thesis
        proof (cases o2)
          case None
          show ?thesis
          proof (cases "setPoint blau sx sy COLORYELLOW")
            case (Inl e)
            then show ?thesis using fb nb None by (subst build_loop.simps) simp
          next
            case sp: (Inr blau')
            from less [OF setPoint_blue_less [OF sb sp]] show ?thesis
              using fb nb None sp by (subst build_loop.simps) simp
          qed
        next
          case (Some n)
          obtain nx ny where n: "n = (nx, ny)" by (cases n)
          note nb' = nb [unfolded Some n]
          obtain r where r: "trace_polygon cv R0 R1 blau sx sy nx ny = Some r"
            "\<forall>b p. r = Inr (b, p) \<longrightarrow> count_col (uint COLORBLUE) b < count_col (uint COLORBLUE) blau"
            using trace_polygon_returns [of blau nx ny cv R0 R1 sx sy] next_blue_cases [OF nb'] by blast
          show ?thesis
          proof (cases r)
            case (Inl e)
            then show ?thesis using fb nb' r(1) by (subst build_loop.simps) simp
          next
            case rr: (Inr bp)
            obtain b2 p2 where bp: "bp = (b2, p2)" by (cases bp)
            have "count_col (uint COLORBLUE) b2 < count_col (uint COLORBLUE) blau" using r(2) rr bp by simp
            from less [OF this] show ?thesis
              using fb nb' r(1) rr bp by (subst build_loop.simps) simp
          qed
        qed
      qed
    qed
  qed
qed


text \<open>
  Claim C7. The fusion loop of \<^verbatim>\<open>floodFillPattern\<close> returns for every raster when the target
  colour is not the active one (the source calls it for black and for white), and a
  pass that sets \<^verbatim>\<open>changed\<close> leaves fewer pixels of the target colour. The boundary walk
  of \<^verbatim>\<open>buildPolygon\<close> returns from every state, since each step turns a blue pixel
  yellow, and so does the whole of \<^verbatim>\<open>buildPolygon\<close>. To return includes the ends by
  \<^verbatim>\<open>exit(99)\<close> and by a pixel access outside the buffer.
\<close>

theorem fusion_and_walk_terminate:
  assumes "relf \<noteq> uint AKTIVCOL"
  shows "(\<exists>r. connect_snippets relf c = Some r) \<and>
         (\<forall>c' ch. fusion_pass relf c = Inr (c', ch) \<and> ch > 0 \<longrightarrow> count_col relf c' < count_col relf c) \<and>
         (\<exists>r. walk cv sx sy blau p1 ax ay = Some r) \<and>
         (\<forall>nx ny blau'. next_blue blau ax ay = Inr (Some (nx, ny)) \<and> setPoint blau nx ny COLORYELLOW = Inr blau'
            \<longrightarrow> count_col (uint COLORBLUE) blau' < count_col (uint COLORBLUE) blau) \<and>
         (\<exists>r. buildPolygon cv R0 R1 lb blau = Some r)"
proof -
  have a: "\<exists>r. connect_snippets relf c = Some r"
    using connect_snippets_fixed [OF assms, of c] by blast
  have b: "count_col relf c' < count_col relf c" if "fusion_pass relf c = Inr (c', ch)" "ch > 0" for c' ch
    using fusion_pass_effect [OF that(1) assms] that(2) by auto
  have w: "\<exists>r. walk cv sx sy blau p1 ax ay = Some r"
    using walk_returns [of cv sx sy blau p1 ax ay] by blast
  have s: "count_col (uint COLORBLUE) blau' < count_col (uint COLORBLUE) blau"
    if "next_blue blau ax ay = Inr (Some (nx, ny))" "setPoint blau nx ny COLORYELLOW = Inr blau'" for nx ny blau'
    using setPoint_blue_less [OF _ that(2)] next_blue_cases [OF that(1)] by simp
  have l: "\<exists>r. buildPolygon cv R0 R1 lb blau = Some r"
    unfolding buildPolygon_def by (rule build_loop_returns)
  from a b w s l show ?thesis by blast
qed

theorem fusion_and_walk_terminate_witness:
  "(\<exists>r. connect_snippets (uint COLORBLACK) gap2_example = Some r) \<and>
   (\<exists>r. walk ten_units 1 1 ring_example raw_polygon 2 1 = Some r) \<and>
   (\<exists>r. buildPolygon ten_units (- 2) 2 3 ring_example = Some r)"
proof -
  have a: "uint COLORBLACK \<noteq> uint AKTIVCOL" by code_simp
  show ?thesis
    using fusion_and_walk_terminate [OF a, of gap2_example ten_units 1 1 ring_example raw_polygon 2 1 "- 2" 2 3]
    by blast
qed

section \<open>The vertices that Polygon::add produces\<close>


lemma pt_XY [simp]: "X (pt cv x y) = cv x" "Y (pt cv x y) = cv y"
  by (simp_all add: pt_def)

















section \<open>The invariant of the walk\<close>










section \<open>The tests of a traced polygon\<close>





section \<open>The start pixel is the first blue pixel\<close>








section \<open>The polygons of buildPolygon\<close>












end
